theory Spec2Isabelle
  imports Main "HOL-Library.Sublist"
begin

section \<open>The stream-framed transport of go-mcp (stdio.go)\<close>

text \<open>
  \<^verbatim>\<open>src/stdio.go\<close> holds two revisions of the transport, one after the other. The first
  one (lines 1-177) has \<^verbatim>\<open>Send(ctx, msg)\<close>, \<^verbatim>\<open>stop()\<close> and \<^verbatim>\<open>StopSession\<close>; the second one
  (lines 178-374) has \<^verbatim>\<open>Send(msg)\<close> with a liveness safeguard, \<^verbatim>\<open>Stop()\<close>, and a
  \<^verbatim>\<open>Sessions\<close> iterator that waits for the done channel. Definitions that exist in both
  revisions carry the suffix \<open>_r1\<close> or \<open>_r2\<close>; the read loop of \<^verbatim>\<open>Messages\<close> is the same
  in both.

  Strings are Go strings: sequences of bytes, here \<^typ>\<open>string\<close>.
\<close>

subsection \<open>Errors, log records, readers\<close>

definition newline :: char where
  "newline = CHR 0x0A"

text \<open>
  Go's \<^verbatim>\<open>error\<close> values that occur in the file: \<^verbatim>\<open>io.EOF\<close>, the two errors of a
  cancelled context, errors of the reader, the writer or the JSON package (opaque, with
  their text), and \<^verbatim>\<open>fmt.Errorf("...: %w", err)\<close>, which wraps an error.
\<close>

datatype error =
    io_EOF
  | ctx_Canceled
  | ctx_DeadlineExceeded
  | Other string
  | Errorf string error

text \<open>\<^verbatim>\<open>errors.Is(err, target)\<close>: \<open>err\<close> or some error it wraps is the target.\<close>

fun errors_Is :: "error \<Rightarrow> error \<Rightarrow> bool" where
  "errors_Is (Errorf p e) t = (Errorf p e = t \<or> errors_Is e t)"
| "errors_Is e t = (e = t)"

text \<open>\<^verbatim>\<open>err.Error()\<close>, the text of an error.\<close>

fun Error_text :: "error \<Rightarrow> string" where
  "Error_text io_EOF = ''EOF''"
| "Error_text ctx_Canceled = ''context canceled''"
| "Error_text ctx_DeadlineExceeded = ''context deadline exceeded''"
| "Error_text (Other s) = s"
| "Error_text (Errorf p e) = p @ Error_text e"

text \<open>
  A record written to the \<^verbatim>\<open>slog\<close> logger: level, message, and the one attribute the
  calls of this file pass (an error value under \<^verbatim>\<open>"err"\<close>, or a string).
\<close>

datatype level = LevelWarn | LevelError

datatype attr = ErrAttr error | StringAttr string string

datatype log_record = Log level string attr

text \<open>
  The \<^verbatim>\<open>io.Reader\<close> of a session: the bytes it delivers, and what it does once they
  are used up. It fails (with \<^verbatim>\<open>io.EOF\<close> at the end of the stream, or with an I/O
  error), or it stalls: the read never returns, as on a pipe that stays open.
\<close>

datatype read_end = Fails error | Stalls

record reader =
  content :: string
  ending :: read_end

text \<open>
  \<^verbatim>\<open>bufio.Reader.ReadString(delim)\<close> reads up to and including the first delimiter. When
  the reader fails before a delimiter is found, it returns the bytes read so far together
  with the error. \<open>read_until\<close> finds the delimiter in the bytes that are left.
\<close>

fun read_until :: "char \<Rightarrow> string \<Rightarrow> (string \<times> string) option" where
  "read_until d [] = None"
| "read_until d (c # cs) =
     (if c = d then Some ([c], cs)
      else (case read_until d cs of
              None \<Rightarrow> None
            | Some (l, rest) \<Rightarrow> Some (c # l, rest)))"

text \<open>
  The value the reading goroutine sends on the \<^verbatim>\<open>lines\<close> channel (the struct
  \<^verbatim>\<open>lineWithErr\<close>), and the bytes that stay in the buffer; \<open>None\<close> when the read never
  returns, so that nothing is ever sent.
\<close>

record lineWithErr =
  line :: string
  err :: "error option"

definition TrimSuffix :: "string \<Rightarrow> string \<Rightarrow> string" where
  "TrimSuffix s suf =
     (if suffix suf s then take (length s - length suf) s else s)"

definition read_goroutine :: "string \<Rightarrow> read_end \<Rightarrow> (lineWithErr \<times> string) option" where
  "read_goroutine buf e =
     (case read_until newline buf of
        Some (l, rest) \<Rightarrow> Some (\<lparr>line = TrimSuffix l [newline], err = None\<rparr>, rest)
      | None \<Rightarrow>
          (case e of
             Fails er \<Rightarrow> Some (\<lparr>line = [], err = Some er\<rparr>, [])
           | Stalls \<Rightarrow> None))"

subsection \<open>The read loop of Messages\<close>

text \<open>
  What one run of the iterator did: the messages it passed to \<^verbatim>\<open>yield\<close>, in order, the
  records it logged, and why the loop was left. \<open>Waiting\<close> is the loop that never
  returns: the read stalls and the done channel is never closed.
\<close>

datatype exit = DoneClosed | EndOfStream | ReadFailed | YieldFalse | Waiting

record 'm run =
  yielded :: "'m list"
  logged :: "log_record list"
  exit :: exit

text \<open>
  The loop of \<^verbatim>\<open>Messages\<close> (lines 123-171, the same at 319-367). Its parameters:
  \<^item> \<open>unmarshal\<close>: \<^verbatim>\<open>json.Unmarshal\<close> into a \<^verbatim>\<open>JSONRPCMessage\<close>; the type and the JSON
    package are not part of the file;
  \<^item> \<open>yield\<close>: the consumer, which sees the message (and, being a closure, may depend on
    the messages it has seen before) and answers whether to go on;
  \<^item> \<open>e\<close>: what the reader does after its bytes;
  \<^item> \<open>dn\<close>: when the \<^verbatim>\<open>select\<close> takes \<^verbatim>\<open><-s.done\<close>. \<open>None\<close>: the channel is never
    closed. \<open>Some k\<close>: it is closed, the first \<open>k\<close> selects still take a line, and the
    next one (or an earlier one whose read stalls) takes the done case;
  \<^item> \<open>buf\<close>: the bytes not read yet; \<open>ys\<close>, \<open>lg\<close>: the messages yielded and the records
    logged so far.
\<close>

fun later :: "nat option \<Rightarrow> nat option" where
  "later None = None"
| "later (Some k) = Some (k - 1)"

function Messages_loop ::
  "(string \<Rightarrow> error + 'm) \<Rightarrow> ('m list \<Rightarrow> 'm \<Rightarrow> bool) \<Rightarrow> read_end \<Rightarrow> nat option \<Rightarrow>
   string \<Rightarrow> 'm list \<Rightarrow> log_record list \<Rightarrow> 'm run" where
  "Messages_loop unmarshal yield e dn buf ys lg =
     (if dn = Some 0 then \<lparr>yielded = ys, logged = lg, exit = DoneClosed\<rparr>
      else
        (case read_goroutine buf e of
           None \<Rightarrow>
             \<lparr>yielded = ys, logged = lg,
              exit = (if dn = None then Waiting else DoneClosed)\<rparr>
         | Some (lwe, rest) \<Rightarrow>
             (case err lwe of
                Some er \<Rightarrow>
                  (if errors_Is er io_EOF
                   then \<lparr>yielded = ys, logged = lg, exit = EndOfStream\<rparr>
                   else \<lparr>yielded = ys,
                         logged = lg @ [Log LevelError ''failed to read message'' (ErrAttr er)],
                         exit = ReadFailed\<rparr>)
              | None \<Rightarrow>
                  (if line lwe = [] then Messages_loop unmarshal yield e (later dn) rest ys lg
                   else
                     (case unmarshal (line lwe) of
                        Inl er \<Rightarrow>
                          Messages_loop unmarshal yield e (later dn) rest ys
                            (lg @ [Log LevelError ''failed to unmarshal message'' (ErrAttr er)])
                      | Inr msg \<Rightarrow>
                          (if \<not> yield ys msg
                           then \<lparr>yielded = ys @ [msg], logged = lg, exit = YieldFalse\<rparr>
                           else Messages_loop unmarshal yield e (later dn) rest
                                  (ys @ [msg]) lg))))))"
  by pat_completeness auto

lemma read_until_shorter:
  "read_until d buf = Some (l, rest) \<Longrightarrow> length rest < length buf"
  by (induction buf arbitrary: l) (auto split: if_splits option.splits)

lemma read_goroutine_shorter:
  "read_goroutine buf e = Some (lwe, rest) \<Longrightarrow> err lwe = None \<Longrightarrow> length rest < length buf"
  by (auto simp: read_goroutine_def split: option.splits read_end.splits
           dest: read_until_shorter)

termination Messages_loop
  by (relation "measure (\<lambda>(unmarshal, yield, e, dn, buf, ys, lg). length buf)")
     (auto dest: read_goroutine_shorter)

declare Messages_loop.simps [simp del]

subsection \<open>Channels and the session\<close>

text \<open>
  A channel of type \<^verbatim>\<open>chan struct{}\<close> on which nothing is ever sent: all that matters is
  whether it has been closed. Closing a closed channel panics; a receive from an open one
  blocks, a receive from a closed one returns at once.
\<close>

datatype chan = Open | Closed

fun close_chan :: "chan \<Rightarrow> string + chan" where
  "close_chan Open = Inr Closed"
| "close_chan Closed = Inl ''close of closed channel''"

text \<open>
  What \<^verbatim>\<open>writer.Write\<close> does with the bytes of one call, as the \<^verbatim>\<open>select\<close> of \<^verbatim>\<open>Send\<close>
  sees it: it has not returned (a stalled writer never does), it returned \<^verbatim>\<open>nil\<close>, or it
  returned an error.
\<close>

datatype writer = Stalled | Accepts | Rejects error

text \<open>
  \<^verbatim>\<open>stdIOSession\<close> and \<^verbatim>\<open>StdIO\<close>. The channel \<^verbatim>\<open>closed\<close> of the session and the one of
  \<^verbatim>\<open>StdIO\<close> exist in the second revision only; the first revision never touches them.
  The logger is \<^verbatim>\<open>slog.Default()\<close>; what is logged is part of each function's result.
\<close>

record stdIOSession =
  reader :: reader
  writer :: writer
  done_ch :: chan
  closed_ch :: chan

record StdIO =
  sess :: stdIOSession
  closed_t :: chan

definition NewStdIO :: "reader \<Rightarrow> writer \<Rightarrow> StdIO" where
  "NewStdIO r w =
     \<lparr>sess = \<lparr>reader = r, writer = w, done_ch = Open, closed_ch = Open\<rparr>, closed_t = Open\<rparr>"

definition ID :: "stdIOSession \<Rightarrow> string" where
  "ID s = ''1''"

text \<open>
  The result of a call that may panic or block: \<open>Blocked\<close> carries the state in which the
  caller waits.
\<close>

datatype 'a outcome = Returns 'a | Panics string | Blocked 'a

text \<open>\<^verbatim>\<open>stop\<close> of the first revision (lines 175-177): \<^verbatim>\<open>close(s.done)\<close>.\<close>

definition stop_r1 :: "stdIOSession \<Rightarrow> stdIOSession outcome" where
  "stop_r1 s =
     (case close_chan (done_ch s) of
        Inl p \<Rightarrow> Panics p
      | Inr c \<Rightarrow> Returns (s\<lparr>done_ch := c\<rparr>))"

text \<open>
  \<^verbatim>\<open>Stop\<close> of the second revision (lines 371-374): \<^verbatim>\<open>close(s.done)\<close>, then
  \<^verbatim>\<open><-s.closed\<close>, which waits until the read loop has left.
\<close>

definition Stop_r2 :: "stdIOSession \<Rightarrow> stdIOSession outcome" where
  "Stop_r2 s =
     (case close_chan (done_ch s) of
        Inl p \<Rightarrow> Panics p
      | Inr c \<Rightarrow>
          (if closed_ch s = Closed then Returns (s\<lparr>done_ch := c\<rparr>)
           else Blocked (s\<lparr>done_ch := c\<rparr>)))"

text \<open>\<^verbatim>\<open>StopSession\<close> (lines 62-66, first revision only).\<close>

definition StopSession :: "StdIO \<Rightarrow> string \<Rightarrow> StdIO outcome" where
  "StopSession t sessID =
     (if sessID = ''1''
      then (case stop_r1 (sess t) of
              Returns s' \<Rightarrow> Returns (t\<lparr>sess := s'\<rparr>)
            | Panics p \<Rightarrow> Panics p
            | Blocked s' \<Rightarrow> Blocked (t\<lparr>sess := s'\<rparr>))
      else Returns t)"

text \<open>
  \<^verbatim>\<open>Messages\<close> (lines 119-173): a fresh \<^verbatim>\<open>bufio.Reader\<close> on the session's reader, then
  the loop. The second revision runs the same loop and, when it returns, closes the channel
  \<^verbatim>\<open>closed\<close> for which \<^verbatim>\<open>Stop\<close> waits.
\<close>

definition Messages ::
  "(string \<Rightarrow> error + 'm) \<Rightarrow> ('m list \<Rightarrow> 'm \<Rightarrow> bool) \<Rightarrow> nat option \<Rightarrow> stdIOSession \<Rightarrow> 'm run" where
  "Messages unmarshal yield dn s =
     Messages_loop unmarshal yield (ending (reader s)) dn (content (reader s)) [] []"

subsection \<open>Send\<close>

text \<open>
  \<^verbatim>\<open>Send\<close> starts a goroutine that writes, and waits in a \<^verbatim>\<open>select\<close>. Go's \<^verbatim>\<open>select\<close>
  takes one of the cases that can proceed, any of them when there are several, and blocks
  while there is none. A case is \<open>Some r\<close> when it can proceed and would give \<open>r\<close>, and
  \<open>None\<close> when it cannot; \<open>select_ready\<close> lists what the cases that can proceed would
  give, in the order of the source. The empty list is a \<^verbatim>\<open>select\<close> that blocks.
\<close>

fun select_ready :: "'a option list \<Rightarrow> 'a list" where
  "select_ready [] = []"
| "select_ready (None # cases) = select_ready cases"
| "select_ready (Some r # cases) = r # select_ready cases"

text \<open>
  One call of \<^verbatim>\<open>Send\<close>: the byte slices passed to \<^verbatim>\<open>writer.Write\<close>, the records the
  writing goroutine logged, and for each case the \<^verbatim>\<open>select\<close> may take the error returned
  (\<open>None\<close> is \<^verbatim>\<open>nil\<close>) with the records logged on the way. No outcome at all: the call
  does not return.
\<close>

record send_run =
  writes :: "string list"
  bg_logged :: "log_record list"
  outcomes :: "(error option \<times> log_record list) list"

text \<open>What the goroutine has put on the buffered channel \<^verbatim>\<open>errs\<close> after \<^verbatim>\<open>Write\<close>.\<close>

fun errs_of :: "writer \<Rightarrow> error option option" where
  "errs_of Stalled = None"
| "errs_of Accepts = Some None"
| "errs_of (Rejects er) = Some (Some (Errorf ''failed to write message: '' er))"

text \<open>
  \<^verbatim>\<open>stdIOSession.Send(ctx, msg)\<close> of the first revision (lines 87-117). \<open>marshal\<close> is
  \<^verbatim>\<open>json.Marshal\<close> on a \<^verbatim>\<open>JSONRPCMessage\<close>; \<open>s\<close> is the session when \<^verbatim>\<open>Send\<close> is called;
  \<open>stopped\<close> says that \<^verbatim>\<open>stop\<close> is called while \<^verbatim>\<open>Send\<close> runs, before its \<^verbatim>\<open>select\<close> is
  decided; \<open>ctx\<close> is \<^verbatim>\<open>ctx.Err()\<close> at that moment (\<open>None\<close> while \<^verbatim>\<open>ctx.Done()\<close> is open).
\<close>

definition stdIOSession_Send_r1 ::
  "('m \<Rightarrow> error + string) \<Rightarrow> stdIOSession \<Rightarrow> bool \<Rightarrow> error option \<Rightarrow> 'm \<Rightarrow> send_run" where
  "stdIOSession_Send_r1 marshal s stopped ctx msg =
     (case marshal msg of
        Inl er \<Rightarrow>
          \<lparr>writes = [], bg_logged = [],
           outcomes = [(Some (Errorf ''failed to marshal message: '' er), [])]\<rparr>
      | Inr bs \<Rightarrow>
          (let msgBs = bs @ [newline];
               errs = errs_of (writer s)
           in \<lparr>writes = [msgBs], bg_logged = [],
               outcomes = select_ready
                 [map_option (\<lambda>er. (Some er, [])) ctx,
                  map_option (\<lambda>r. (r, [])) errs,
                  (if done_ch s = Closed \<or> stopped then Some (None, []) else None)]\<rparr>))"

definition StdIO_Send_r1 ::
  "('m \<Rightarrow> error + string) \<Rightarrow> StdIO \<Rightarrow> bool \<Rightarrow> error option \<Rightarrow> 'm \<Rightarrow> send_run" where
  "StdIO_Send_r1 marshal t stopped ctx msg = stdIOSession_Send_r1 marshal (sess t) stopped ctx msg"

text \<open>
  \<^verbatim>\<open>stdIOSession.Send(msg)\<close> of the second revision (lines 272-311). The goroutine first
  looks at the done channel and gives up when it is closed; \<^verbatim>\<open>stop\<close> may be called
  before that look or after it.
\<close>

datatype stop_call = NoStop | StopBeforeGuard | StopAfterGuard

fun stop_called :: "stop_call \<Rightarrow> bool" where
  "stop_called NoStop = False"
| "stop_called StopBeforeGuard = True"
| "stop_called StopAfterGuard = True"

text \<open>What the \<^verbatim>\<open>errs\<close> case of the second revision logs before it returns \<open>r\<close>.\<close>

fun send_failure_log :: "error option \<Rightarrow> log_record list" where
  "send_failure_log None = []"
| "send_failure_log (Some er) =
     [Log LevelError ''failed to send message'' (StringAttr ''err'' (Error_text er))]"

definition stdIOSession_Send_r2 ::
  "('m \<Rightarrow> error + string) \<Rightarrow> stdIOSession \<Rightarrow> stop_call \<Rightarrow> 'm \<Rightarrow> send_run" where
  "stdIOSession_Send_r2 marshal s stopped msg =
     (case marshal msg of
        Inl er \<Rightarrow>
          \<lparr>writes = [], bg_logged = [],
           outcomes = [(Some (Errorf ''failed to marshal message: '' er), [])]\<rparr>
      | Inr bs \<Rightarrow>
          (let msgBs = bs @ [newline];
               guard = (done_ch s = Closed \<or> stopped = StopBeforeGuard);
               errs = (if guard then None else errs_of (writer s))
           in \<lparr>writes = (if guard then [] else [msgBs]),
               bg_logged =
                 (if guard
                  then [Log LevelWarn ''session is closed while writing message''
                          (StringAttr ''message'' msgBs)]
                  else []),
               outcomes = select_ready
                 [map_option (\<lambda>r. (r, send_failure_log r)) errs,
                  (if done_ch s = Closed \<or> stop_called stopped
                   then Some (None,
                          [Log LevelWarn ''session is closed while sending message''
                             (StringAttr ''message'' msgBs)])
                   else None)]\<rparr>))"

text \<open>\<^verbatim>\<open>StdIO.Send\<close> of the second revision (lines 256-258) drops its context.\<close>

definition StdIO_Send_r2 ::
  "('m \<Rightarrow> error + string) \<Rightarrow> StdIO \<Rightarrow> stop_call \<Rightarrow> error option \<Rightarrow> 'm \<Rightarrow> send_run" where
  "StdIO_Send_r2 marshal t stopped ctx msg = stdIOSession_Send_r2 marshal (sess t) stopped msg"

subsection \<open>Sessions\<close>

text \<open>
  \<^verbatim>\<open>Sessions\<close> returns an iterator whose body runs in the goroutine of the caller while
  other goroutines may stop the session. The body is modelled by its program points:
  \<open>Entry\<close> before \<^verbatim>\<open>yield(s.sess)\<close>, \<open>Receiving\<close> at \<^verbatim>\<open><-s.sess.done\<close>, \<open>Exited\<close> after the
  return. \<open>Crashed\<close> is the program after a panic.
\<close>

datatype pc = Entry | Receiving | Exited | Crashed

record iteration =
  at :: pc
  seen :: "stdIOSession list"
  transport :: StdIO

text \<open>
  One step of the body of the first revision (lines 55-59): \<^verbatim>\<open>yield(s.sess)\<close>, whose
  result is ignored, and the return.
\<close>

definition Sessions_step_r1 :: "iteration \<Rightarrow> iteration" where
  "Sessions_step_r1 it =
     (case at it of
        Entry \<Rightarrow> it\<lparr>at := Exited, seen := seen it @ [sess (transport it)]\<rparr>
      | _ \<Rightarrow> it)"

text \<open>
  One step of the body of the second revision (lines 236-244): the yield; then the receive
  from the done channel, which cannot be passed while the channel is open; on the way out
  the deferred \<^verbatim>\<open>close(s.closed)\<close>.
\<close>

definition Sessions_step_r2 :: "iteration \<Rightarrow> iteration" where
  "Sessions_step_r2 it =
     (case at it of
        Entry \<Rightarrow> it\<lparr>at := Receiving, seen := seen it @ [sess (transport it)]\<rparr>
      | Receiving \<Rightarrow>
          (if done_ch (sess (transport it)) = Closed
           then (case close_chan (closed_t (transport it)) of
                   Inl p \<Rightarrow> it\<lparr>at := Crashed\<rparr>
                 | Inr c \<Rightarrow> it\<lparr>at := Exited, transport := (transport it)\<lparr>closed_t := c\<rparr>\<rparr>)
           else it)
      | _ \<Rightarrow> it)"

text \<open>
  Another goroutine calls the session's stop function (\<open>stop_r1\<close> or \<open>Stop_r2\<close>). A caller
  that blocks inside it has closed the done channel already; a panic ends the program.
\<close>

definition stop_called_during :: "(stdIOSession \<Rightarrow> stdIOSession outcome) \<Rightarrow> iteration \<Rightarrow> iteration" where
  "stop_called_during stp it =
     (case stp (sess (transport it)) of
        Returns s' \<Rightarrow> it\<lparr>transport := (transport it)\<lparr>sess := s'\<rparr>\<rparr>
      | Blocked s' \<Rightarrow> it\<lparr>transport := (transport it)\<lparr>sess := s'\<rparr>\<rparr>
      | Panics p \<Rightarrow> it\<lparr>at := Crashed\<rparr>)"

text \<open>
  A schedule says in which order the iterator and the callers of stop take their steps.
\<close>

datatype event = Iterate | CallStop

fun run_schedule ::
  "(iteration \<Rightarrow> iteration) \<Rightarrow> (stdIOSession \<Rightarrow> stdIOSession outcome) \<Rightarrow>
   event list \<Rightarrow> iteration \<Rightarrow> iteration" where
  "run_schedule step stp [] it = it"
| "run_schedule step stp (ev # evs) it =
     (if at it = Crashed then it
      else run_schedule step stp evs
             (case ev of Iterate \<Rightarrow> step it | CallStop \<Rightarrow> stop_called_during stp it))"

definition Sessions_r1 :: "event list \<Rightarrow> StdIO \<Rightarrow> iteration" where
  "Sessions_r1 evs t =
     run_schedule Sessions_step_r1 stop_r1 evs \<lparr>at = Entry, seen = [], transport = t\<rparr>"

definition Sessions_r2 :: "event list \<Rightarrow> StdIO \<Rightarrow> iteration" where
  "Sessions_r2 evs t =
     run_schedule Sessions_step_r2 Stop_r2 evs \<lparr>at = Entry, seen = [], transport = t\<rparr>"

subsection \<open>The order of arrival, stated on the stream\<close>

text \<open>
  The lines of a stream are its segments that end in a newline, in the order in which they
  appear; bytes after the last newline are no line. \<open>cur\<close> holds the bytes of the line
  under way. A line counts when it is not empty and decodes; \<open>arrival_order\<close> is the list
  of the messages of the lines that count.
\<close>

fun complete_lines :: "string \<Rightarrow> string \<Rightarrow> string list" where
  "complete_lines cur [] = []"
| "complete_lines cur (c # cs) =
     (if c = newline then cur # complete_lines [] cs
      else complete_lines (cur @ [c]) cs)"

definition decoded :: "(string \<Rightarrow> error + 'm) \<Rightarrow> string \<Rightarrow> 'm list" where
  "decoded unmarshal l =
     (if l = [] then []
      else (case unmarshal l of Inl er \<Rightarrow> [] | Inr m \<Rightarrow> [m]))"

definition arrival_order :: "(string \<Rightarrow> error + 'm) \<Rightarrow> string \<Rightarrow> 'm list" where
  "arrival_order unmarshal bytes = concat (map (decoded unmarshal) (complete_lines [] bytes))"

subsection \<open>The JSON-RPC message and its codec\<close>

text \<open>
  Modelled from the spec: the type \<^verbatim>\<open>JSONRPCMessage\<close> and the package \<^verbatim>\<open>encoding/json\<close> are
  not among the source files, so the message and its encoding follow the spec: the data
  model of section 3, the contract of section 4.1 (stable field names, absent fields are
  left out, a payload that is not valid structured data is rejected, decoding is total),
  the framing rule of section 4.3 (a compact JSON document) and the wire format of
  section 6 (UTF-8 JSON, no raw newline inside a message). Every definition of this
  subsection is part of that model.
\<close>

text \<open>
  Modelled from the spec: the structured data of the wire format, JSON values. A number is
  kept exactly, as a decimal mantissa and a decimal exponent: \<open>JNumber m e\<close> stands for
  \<open>m * 10 ^ e\<close>. Strings are byte strings in UTF-8. The members of an object keep their
  order.
\<close>

datatype json =
    JNull
  | JBool bool
  | JNumber int int
  | JString string
  | JArray "json list"
  | JObject "(string \<times> json) list"

text \<open>Modelled from the spec: the decimal digits of JSON numbers.\<close>

definition is_digit :: "char \<Rightarrow> bool" where
  "is_digit c = (48 \<le> (of_char c :: nat) \<and> (of_char c :: nat) \<le> 57)"

text \<open>Modelled from the spec: the character of a digit below ten.\<close>

definition digit_char :: "nat \<Rightarrow> char" where
  "digit_char d = char_of (48 + d)"

text \<open>Modelled from the spec: the digit of a character.\<close>

definition digit_val :: "char \<Rightarrow> nat" where
  "digit_val c = of_char c - 48"

text \<open>Modelled from the spec: a natural number in decimal, without leading zeros.\<close>

fun show_nat :: "nat \<Rightarrow> string" where
  "show_nat n =
     (if n < 10 then [digit_char n] else show_nat (n div 10) @ [digit_char (n mod 10)])"

declare show_nat.simps [simp del]

text \<open>Modelled from the spec: an integer in decimal.\<close>

definition show_int :: "int \<Rightarrow> string" where
  "show_int i = (if i < 0 then CHR ''-'' # show_nat (nat (- i)) else show_nat (nat i))"

text \<open>Modelled from the spec: the number that a run of digits denotes.\<close>

definition digits_value :: "string \<Rightarrow> nat" where
  "digits_value ds = foldl (\<lambda>a c. 10 * a + digit_val c) 0 ds"

text \<open>Modelled from the spec: a sign applied to a natural number.\<close>

definition signed :: "bool \<Rightarrow> nat \<Rightarrow> int" where
  "signed neg n = (if neg then - int n else int n)"

text \<open>
  Modelled from the spec: the compact text of a number, the mantissa and, unless it is
  zero, the exponent after \<^verbatim>\<open>e\<close>.
\<close>

definition print_number :: "int \<Rightarrow> int \<Rightarrow> string" where
  "print_number m e = show_int m @ (if e = 0 then [] else CHR ''e'' # show_int e)"

text \<open>Modelled from the spec: the optional minus sign of a JSON number.\<close>

definition strip_minus :: "string \<Rightarrow> bool \<times> string" where
  "strip_minus s =
     (case s of
        [] \<Rightarrow> (False, [])
      | c # cs \<Rightarrow> if c = CHR ''-'' then (True, cs) else (False, c # cs))"

text \<open>Modelled from the spec: the optional sign of an exponent.\<close>

definition strip_sign :: "string \<Rightarrow> bool \<times> string" where
  "strip_sign s =
     (case s of
        [] \<Rightarrow> (False, [])
      | c # cs \<Rightarrow>
          if c = CHR ''-'' then (True, cs)
          else if c = CHR ''+'' then (False, cs)
          else (False, c # cs))"

text \<open>
  Modelled from the spec: the optional fraction of a JSON number, a point and at least
  one digit; the result is the digits and the text after them.
\<close>

definition parse_frac :: "string \<Rightarrow> (string \<times> string) option" where
  "parse_frac s =
     (case s of
        [] \<Rightarrow> Some ([], [])
      | c # cs \<Rightarrow>
          if c = CHR ''.''
          then (if takeWhile is_digit cs = [] then None
                else Some (takeWhile is_digit cs, dropWhile is_digit cs))
          else Some ([], c # cs))"

text \<open>
  Modelled from the spec: the optional exponent of a JSON number, \<^verbatim>\<open>e\<close> or \<^verbatim>\<open>E\<close>, a sign
  and at least one digit.
\<close>

definition parse_exp :: "string \<Rightarrow> (int \<times> string) option" where
  "parse_exp s =
     (case s of
        [] \<Rightarrow> Some (0, [])
      | c # cs \<Rightarrow>
          if c = CHR ''e'' \<or> c = CHR ''E''
          then (case strip_sign cs of
                  (neg, ds) \<Rightarrow>
                    if takeWhile is_digit ds = [] then None
                    else Some (signed neg (digits_value (takeWhile is_digit ds)),
                               dropWhile is_digit ds))
          else Some (0, c # cs))"

text \<open>
  Modelled from the spec: reading a JSON number. The integer part has no leading zero;
  the digits of the fraction are moved into the mantissa and counted off the exponent.
\<close>

definition parse_number :: "string \<Rightarrow> (json \<times> string) option" where
  "parse_number s =
     (case strip_minus s of
        (neg, s1) \<Rightarrow>
          (let ip = takeWhile is_digit s1 in
           if ip = [] \<or> (1 < length ip \<and> hd ip = CHR ''0'') then None
           else
             (case parse_frac (dropWhile is_digit s1) of
                None \<Rightarrow> None
              | Some (fr, s3) \<Rightarrow>
                  (case parse_exp s3 of
                     None \<Rightarrow> None
                   | Some (ex, s4) \<Rightarrow>
                       Some (JNumber (signed neg (digits_value (ip @ fr)))
                               (ex - int (length fr)), s4)))))"

text \<open>Modelled from the spec: a hexadecimal digit, in lower case.\<close>

definition hex_char :: "nat \<Rightarrow> char" where
  "hex_char d = (if d < 10 then char_of (48 + d) else char_of (87 + d))"

text \<open>Modelled from the spec: the value of a hexadecimal digit of either case.\<close>

definition hex_val :: "char \<Rightarrow> nat option" where
  "hex_val c =
     (let n = (of_char c :: nat) in
      if 48 \<le> n \<and> n \<le> 57 then Some (n - 48)
      else if 97 \<le> n \<and> n \<le> 102 then Some (n - 87)
      else if 65 \<le> n \<and> n \<le> 70 then Some (n - 55)
      else None)"

text \<open>Modelled from the spec: the four hexadecimal digits of a \<open>u\<close> escape.\<close>

definition hex4 :: "char \<Rightarrow> char \<Rightarrow> char \<Rightarrow> char \<Rightarrow> nat option" where
  "hex4 a b c d =
     (case (hex_val a, hex_val b, hex_val c, hex_val d) of
        (Some p, Some q, Some r, Some s) \<Rightarrow> Some (4096 * p + 256 * q + 16 * r + s)
      | _ \<Rightarrow> None)"

text \<open>
  Modelled from the spec: a byte of a string inside a document. The quote and the
  backslash are escaped, and so is every control character, the newline among them: no raw
  newline is permitted inside a message.
\<close>

definition escape_char :: "char \<Rightarrow> string" where
  "escape_char c =
     (if c = CHR 0x22 then [CHR 0x5C, CHR 0x22]
      else if c = CHR 0x5C then [CHR 0x5C, CHR 0x5C]
      else if (of_char c :: nat) < 32
      then [CHR 0x5C, CHR ''u'', CHR ''0'', CHR ''0'',
            hex_char (of_char c div 16), hex_char (of_char c mod 16)]
      else [c])"

text \<open>Modelled from the spec: the text of a string, between quotes.\<close>

definition print_string :: "string \<Rightarrow> string" where
  "print_string s = CHR 0x22 # concat (map escape_char s) @ [CHR 0x22]"

text \<open>Modelled from the spec: the UTF-8 bytes of a code point.\<close>

definition utf8 :: "nat \<Rightarrow> string" where
  "utf8 n =
     (if n < 128 then [char_of n]
      else if n < 2048 then [char_of (192 + n div 64), char_of (128 + n mod 64)]
      else if n < 65536
      then [char_of (224 + n div 4096), char_of (128 + (n div 64) mod 64),
            char_of (128 + n mod 64)]
      else [char_of (240 + n div 262144), char_of (128 + (n div 4096) mod 64),
            char_of (128 + (n div 64) mod 64), char_of (128 + n mod 64)])"

text \<open>Modelled from the spec: the escapes of JSON that stand for one character.\<close>

definition simple_escape :: "char \<Rightarrow> char option" where
  "simple_escape e =
     (if e = CHR 0x22 then Some (CHR 0x22)
      else if e = CHR 0x5C then Some (CHR 0x5C)
      else if e = CHR ''/'' then Some (CHR ''/'')
      else if e = CHR ''b'' then Some (CHR 0x08)
      else if e = CHR ''f'' then Some (CHR 0x0C)
      else if e = CHR ''n'' then Some (CHR 0x0A)
      else if e = CHR ''r'' then Some (CHR 0x0D)
      else if e = CHR ''t'' then Some (CHR 0x09)
      else None)"

text \<open>Modelled from the spec: bytes put in front of the string read so far.\<close>

definition prepend :: "string \<Rightarrow> (string \<times> string) option \<Rightarrow> (string \<times> string) option" where
  "prepend xs r = (case r of None \<Rightarrow> None | Some (s, rest) \<Rightarrow> Some (xs @ s, rest))"

text \<open>
  Modelled from the spec: reading a string after its opening quote, up to the closing one.
  A raw control character is not valid; a \<open>u\<close> escape gives the UTF-8 bytes of its code
  point, two of them in a row those of a surrogate pair.
\<close>

fun parse_chars :: "string \<Rightarrow> (string \<times> string) option" where
  "parse_chars [] = None"
| "parse_chars (c # cs) =
     (if c = CHR 0x22 then Some ([], cs)
      else if (of_char c :: nat) < 32 then None
      else if c = CHR 0x5C
      then (case cs of
              [] \<Rightarrow> None
            | e # cs1 \<Rightarrow>
                if e = CHR ''u''
                then (case cs1 of
                        h1 # h2 # h3 # h4 # cs2 \<Rightarrow>
                          (case hex4 h1 h2 h3 h4 of
                             None \<Rightarrow> None
                           | Some n \<Rightarrow>
                               if 55296 \<le> n \<and> n < 56320
                               then (case cs2 of
                                       b # u # l1 # l2 # l3 # l4 # cs3 \<Rightarrow>
                                         (case hex4 l1 l2 l3 l4 of
                                            None \<Rightarrow> None
                                          | Some lo \<Rightarrow>
                                              if b = CHR 0x5C \<and> u = CHR ''u'' \<and>
                                                 56320 \<le> lo \<and> lo < 57344
                                              then prepend
                                                     (utf8 (65536 + (n - 55296) * 1024 +
                                                            (lo - 56320)))
                                                     (parse_chars cs3)
                                              else None)
                                     | _ \<Rightarrow> None)
                               else if 56320 \<le> n \<and> n < 57344 then None
                               else prepend (utf8 n) (parse_chars cs2))
                      | _ \<Rightarrow> None)
                else (case simple_escape e of
                        None \<Rightarrow> None
                      | Some x \<Rightarrow> prepend [x] (parse_chars cs1)))
      else prepend [c] (parse_chars cs))"

text \<open>Modelled from the spec: texts joined by commas, with no space between them.\<close>

fun commas :: "string list \<Rightarrow> string" where
  "commas [] = []"
| "commas [x] = x"
| "commas (x # y # xs) = x @ CHR '','' # commas (y # xs)"

text \<open>
  Modelled from the spec: the compact JSON document of a value. It has no white space
  outside strings.
\<close>

fun print_json :: "json \<Rightarrow> string" where
  "print_json JNull = ''null''"
| "print_json (JBool b) = (if b then ''true'' else ''false'')"
| "print_json (JNumber m e) = print_number m e"
| "print_json (JString s) = print_string s"
| "print_json (JArray vs) = CHR ''['' # commas (map print_json vs) @ '']''"
| "print_json (JObject kvs) =
     CHR ''{'' # commas (map (\<lambda>(k, v). print_string k @ CHR '':'' # print_json v) kvs) @ ''}''"

text \<open>Modelled from the spec: the text of one member of an object.\<close>

definition print_member :: "string \<times> json \<Rightarrow> string" where
  "print_member kv = print_string (fst kv) @ CHR '':'' # print_json (snd kv)"

text \<open>Modelled from the spec: the white space of JSON.\<close>

definition is_ws :: "char \<Rightarrow> bool" where
  "is_ws c = (c = CHR '' '' \<or> c = CHR 0x09 \<or> c = CHR 0x0A \<or> c = CHR 0x0D)"

text \<open>Modelled from the spec: white space before a token is passed over.\<close>

definition skip_ws :: "string \<Rightarrow> string" where
  "skip_ws s = dropWhile is_ws s"

text \<open>Modelled from the spec: one of the words \<^verbatim>\<open>null\<close>, \<^verbatim>\<open>true\<close>, \<^verbatim>\<open>false\<close>.\<close>

definition literal :: "string \<Rightarrow> json \<Rightarrow> string \<Rightarrow> (json \<times> string) option" where
  "literal word v s = (if prefix word s then Some (v, drop (length word) s) else None)"

text \<open>
  Modelled from the spec: reading a value, the elements of an array after its bracket, and
  the members of an object after its brace. Each gives what it read and the text after it,
  or \<open>None\<close> for text that is not valid. The first argument bounds the depth of the
  calls; \<open>parse_json\<close> starts with more than any text can use.
\<close>

fun parse_value :: "nat \<Rightarrow> string \<Rightarrow> (json \<times> string) option"
  and parse_elems :: "nat \<Rightarrow> string \<Rightarrow> (json list \<times> string) option"
  and parse_members :: "nat \<Rightarrow> string \<Rightarrow> ((string \<times> json) list \<times> string) option" where
  "parse_value 0 s = None"
| "parse_value (Suc n) s =
     (case skip_ws s of
        [] \<Rightarrow> None
      | c # cs \<Rightarrow>
          if c = CHR ''{''
          then (case skip_ws cs of
                  [] \<Rightarrow> None
                | d # ds \<Rightarrow>
                    if d = CHR ''}'' then Some (JObject [], ds)
                    else (case parse_members n (d # ds) of
                            None \<Rightarrow> None
                          | Some (kvs, r) \<Rightarrow> Some (JObject kvs, r)))
          else if c = CHR ''[''
          then (case skip_ws cs of
                  [] \<Rightarrow> None
                | d # ds \<Rightarrow>
                    if d = CHR '']'' then Some (JArray [], ds)
                    else (case parse_elems n (d # ds) of
                            None \<Rightarrow> None
                          | Some (vs, r) \<Rightarrow> Some (JArray vs, r)))
          else if c = CHR 0x22
          then (case parse_chars cs of
                  None \<Rightarrow> None
                | Some (str, r) \<Rightarrow> Some (JString str, r))
          else if c = CHR ''n'' then literal ''null'' JNull (c # cs)
          else if c = CHR ''t'' then literal ''true'' (JBool True) (c # cs)
          else if c = CHR ''f'' then literal ''false'' (JBool False) (c # cs)
          else parse_number (c # cs))"
| "parse_elems 0 s = None"
| "parse_elems (Suc n) s =
     (case parse_value n s of
        None \<Rightarrow> None
      | Some (v, r) \<Rightarrow>
          (case skip_ws r of
             [] \<Rightarrow> None
           | c # cs \<Rightarrow>
               if c = CHR '',''
               then (case parse_elems n cs of
                       None \<Rightarrow> None
                     | Some (vs, r') \<Rightarrow> Some (v # vs, r'))
               else if c = CHR '']'' then Some ([v], cs)
               else None))"
| "parse_members 0 s = None"
| "parse_members (Suc n) s =
     (case skip_ws s of
        [] \<Rightarrow> None
      | q # cs \<Rightarrow>
          if q = CHR 0x22
          then (case parse_chars cs of
                  None \<Rightarrow> None
                | Some (k, r) \<Rightarrow>
                    (case skip_ws r of
                       [] \<Rightarrow> None
                     | c # r1 \<Rightarrow>
                         if c = CHR '':''
                         then (case parse_value n r1 of
                                 None \<Rightarrow> None
                               | Some (v, r2) \<Rightarrow>
                                   (case skip_ws r2 of
                                      [] \<Rightarrow> None
                                    | d # r3 \<Rightarrow>
                                        if d = CHR '',''
                                        then (case parse_members n r3 of
                                                None \<Rightarrow> None
                                              | Some (kvs, r4) \<Rightarrow> Some ((k, v) # kvs, r4))
                                        else if d = CHR ''}'' then Some ([(k, v)], r3)
                                        else None))
                         else None))
          else None)"

text \<open>
  Modelled from the spec: decoding a document is total. The whole text must be one value,
  with nothing but white space after it.
\<close>

definition parse_json :: "string \<Rightarrow> json option" where
  "parse_json s =
     (case parse_value (Suc (length s)) s of
        None \<Rightarrow> None
      | Some (v, r) \<Rightarrow> if skip_ws r = [] then Some v else None)"

text \<open>
  Modelled from the spec: what may follow a number inside a compact document (a comma, a
  closing bracket or brace, or the end of the text).
\<close>

fun number_ends :: "string \<Rightarrow> bool" where
  "number_ends [] = True"
| "number_ends (c # cs) = (c = CHR '','' \<or> c = CHR '']'' \<or> c = CHR ''}'')"

text \<open>
  Modelled from the spec: the envelope of section 3. The protocol version is a constant
  and no field; the other fields (\<^verbatim>\<open>id\<close>, \<^verbatim>\<open>method\<close>, \<^verbatim>\<open>params\<close>, \<^verbatim>\<open>result\<close>, \<^verbatim>\<open>error\<close>) are
  optional, and payloads are opaque JSON values.
\<close>

record JSONRPCMessage =
  msg_id :: "json option"
  msg_method :: "string option"
  msg_params :: "json option"
  msg_result :: "json option"
  msg_error :: "json option"

text \<open>
  Modelled from the spec: the constant protocol version (\<^verbatim>\<open>JSONRPCVersion\<close> in the test
  file). No proof depends on its value.
\<close>

definition JSONRPCVersion :: string where
  "JSONRPCVersion = ''2.0''"

text \<open>Modelled from the spec: an identifier, when there is one, is a number or a string.\<close>

fun id_ok :: "json option \<Rightarrow> bool" where
  "id_ok None = True"
| "id_ok (Some (JNumber m e)) = True"
| "id_ok (Some (JString s)) = True"
| "id_ok (Some v) = False"

text \<open>
  Modelled from the spec: a message is exactly one of request, notification, success
  response and error response, determined by the presence of \<^verbatim>\<open>id\<close>, \<^verbatim>\<open>method\<close>,
  \<^verbatim>\<open>result\<close> and \<^verbatim>\<open>error\<close>.
\<close>

datatype kind = Request | Notification | SuccessResponse | ErrorResponse

fun kind_of_fields ::
  "json option \<Rightarrow> string option \<Rightarrow> json option \<Rightarrow> json option \<Rightarrow> kind option" where
  "kind_of_fields (Some i) (Some f) None None = Some Request"
| "kind_of_fields None (Some f) None None = Some Notification"
| "kind_of_fields (Some i) None (Some r) None = Some SuccessResponse"
| "kind_of_fields (Some i) None None (Some e) = Some ErrorResponse"
| "kind_of_fields i f r e = None"

text \<open>Modelled from the spec: the kind of a message, if it has one.\<close>

definition kind_of :: "JSONRPCMessage \<Rightarrow> kind option" where
  "kind_of m = kind_of_fields (msg_id m) (msg_method m) (msg_result m) (msg_error m)"

text \<open>Modelled from the spec: the invariant of the envelope.\<close>

definition valid_message :: "JSONRPCMessage \<Rightarrow> bool" where
  "valid_message m =
     (id_ok (msg_id m) \<and> (case kind_of m of None \<Rightarrow> False | Some k \<Rightarrow> True))"

text \<open>Modelled from the spec: a field that is absent is left out.\<close>

fun opt_field :: "string \<Rightarrow> json option \<Rightarrow> (string \<times> json) list" where
  "opt_field name None = []"
| "opt_field name (Some v) = [(name, v)]"

text \<open>Modelled from the spec: the object of a message, with stable field names.\<close>

definition message_object :: "JSONRPCMessage \<Rightarrow> json" where
  "message_object m =
     JObject ((''jsonrpc'', JString JSONRPCVersion) #
              opt_field ''id'' (msg_id m) @
              opt_field ''method'' (map_option JString (msg_method m)) @
              opt_field ''params'' (msg_params m) @
              opt_field ''result'' (msg_result m) @
              opt_field ''error'' (msg_error m))"

text \<open>
  Modelled from the spec: encoding. A record that breaks the invariant is no message and
  is refused; a message is serialized to the compact document of its object.
\<close>

definition JSONRPC_marshal :: "JSONRPCMessage \<Rightarrow> error + string" where
  "JSONRPC_marshal m =
     (if valid_message m then Inr (print_json (message_object m))
      else Inl (Other ''not a JSON-RPC message''))"

text \<open>Modelled from the spec: the method, when there is one, is a string.\<close>

fun method_field :: "json option \<Rightarrow> string option option" where
  "method_field None = Some None"
| "method_field (Some (JString s)) = Some (Some s)"
| "method_field (Some v) = None"

text \<open>
  Modelled from the spec: the message of an object. The version must be the constant, and
  the fields must satisfy the invariant; members with other names are passed over.
\<close>

definition message_of_object :: "(string \<times> json) list \<Rightarrow> error + JSONRPCMessage" where
  "message_of_object kvs =
     (if map_of kvs ''jsonrpc'' = Some (JString JSONRPCVersion)
      then (case method_field (map_of kvs ''method'') of
              None \<Rightarrow> Inl (Other ''not a JSON-RPC message'')
            | Some f \<Rightarrow>
                (let m = \<lparr>msg_id = map_of kvs ''id'', msg_method = f,
                          msg_params = map_of kvs ''params'',
                          msg_result = map_of kvs ''result'',
                          msg_error = map_of kvs ''error''\<rparr>
                 in if valid_message m then Inr m
                    else Inl (Other ''not a JSON-RPC message'')))
      else Inl (Other ''not a JSON-RPC message''))"

text \<open>
  Modelled from the spec: decoding. Any byte sequence gives a valid message or one of two
  failures: the payload is malformed (no JSON document), or the document is not a JSON-RPC
  message.
\<close>

definition JSONRPC_unmarshal :: "string \<Rightarrow> error + JSONRPCMessage" where
  "JSONRPC_unmarshal s =
     (case parse_json s of
        None \<Rightarrow> Inl (Other ''malformed payload'')
      | Some (JObject kvs) \<Rightarrow> message_of_object kvs
      | Some v \<Rightarrow> Inl (Other ''not a JSON-RPC message''))"

subsection \<open>A codec for the examples\<close>

text \<open>
  \<^verbatim>\<open>JSONRPCMessage\<close> and \<^verbatim>\<open>encoding/json\<close> are parameters of the functions above. The
  examples instantiate them with notifications that carry nothing but a method name made
  of lower-case letters and slashes, whose compact JSON document is
  \<^verbatim>\<open>{"method":"..."}\<close>.
\<close>

definition demo_pre :: string where
  \<open>demo_pre = ''{"method":"''\<close>

definition demo_post :: string where
  \<open>demo_post = ''"}''\<close>

definition method_char :: "char \<Rightarrow> bool" where
  "method_char c = (c \<in> set ''abcdefghijklmnopqrstuvwxyz/'')"

definition demo_marshal :: "string \<Rightarrow> error + string" where
  "demo_marshal m =
     (if list_all method_char m then Inr (demo_pre @ m @ demo_post)
      else Inl (Other ''json: unsupported value''))"

definition demo_unmarshal :: "string \<Rightarrow> error + string" where
  "demo_unmarshal l =
     (let m = take (length l - length demo_pre - length demo_post) (drop (length demo_pre) l)
      in if l = demo_pre @ m @ demo_post \<and> list_all method_char m then Inr m
         else Inl (Other ''invalid character''))"

text \<open>Lines, streams and sessions that the examples use.\<close>

definition demo_ping :: string where
  \<open>demo_ping = ''{"method":"ping"}''\<close>

definition demo_bad :: string where
  "demo_bad = ''{not json''"

definition demo_stream :: string where
  \<open>demo_stream = ''{"method":"a"}'' @ [newline] @ ''{not json'' @ [newline, newline] @
                   ''{"method":"b"}'' @ [newline] @ ''{"method":"c"}''\<close>

definition demo_reader :: reader where
  "demo_reader = \<lparr>content = [], ending = Stalls\<rparr>"

definition demo_transport :: StdIO where
  "demo_transport = NewStdIO demo_reader Accepts"

definition demo_stopped :: "writer \<Rightarrow> stdIOSession" where
  "demo_stopped w = \<lparr>reader = demo_reader, writer = w, done_ch = Closed, closed_ch = Open\<rparr>"

text \<open>A request of the modelled codec, and the line that carries it.\<close>

definition demo_request :: JSONRPCMessage where
  "demo_request = \<lparr>msg_id = Some (JNumber 1 0), msg_method = Some ''ping'', msg_params = None,
                    msg_result = None, msg_error = None\<rparr>"

definition demo_request_line :: string where
  \<open>demo_request_line = ''{"jsonrpc":"2.0","id":1,"method":"ping"}''\<close>

subsection \<open>Invariants of the Sessions iterators\<close>

text \<open>
  What holds at each program point of the iterator of the second revision, and of the
  first one (which has no receive).
\<close>

definition sessions_inv_r2 :: "iteration \<Rightarrow> bool" where
  "sessions_inv_r2 it =
     (case at it of
        Entry \<Rightarrow> seen it = []
      | Receiving \<Rightarrow> length (seen it) = 1
      | Exited \<Rightarrow> length (seen it) = 1 \<and> done_ch (sess (transport it)) = Closed
      | Crashed \<Rightarrow> length (seen it) \<le> 1)"

definition sessions_inv_r1 :: "iteration \<Rightarrow> bool" where
  "sessions_inv_r1 it =
     (case at it of
        Entry \<Rightarrow> seen it = []
      | Receiving \<Rightarrow> False
      | Exited \<Rightarrow> length (seen it) = 1
      | Crashed \<Rightarrow> length (seen it) \<le> 1)"

section \<open>Properties\<close>

subsection \<open>Reading one line\<close>

lemma read_until_hit:
  "d \<notin> set l \<Longrightarrow> read_until d (l @ d # rest) = Some (l @ [d], rest)"
  by (induction l) auto

lemma read_until_miss:
  "d \<notin> set buf \<Longrightarrow> read_until d buf = None"
  by (induction buf) auto

lemma TrimSuffix_append: "TrimSuffix (l @ suf) suf = l"
  by (simp add: TrimSuffix_def suffix_def)

lemma read_goroutine_line:
  "newline \<notin> set l \<Longrightarrow>
   read_goroutine (l @ newline # rest) e = Some (\<lparr>line = l, err = None\<rparr>, rest)"
  by (simp add: read_goroutine_def read_until_hit TrimSuffix_append)

lemma read_goroutine_fails:
  "newline \<notin> set buf \<Longrightarrow>
   read_goroutine buf (Fails er) = Some (\<lparr>line = [], err = Some er\<rparr>, [])"
  by (simp add: read_goroutine_def read_until_miss)

lemma read_goroutine_stalls:
  "newline \<notin> set buf \<Longrightarrow> read_goroutine buf Stalls = None"
  by (simp add: read_goroutine_def read_until_miss)

subsection \<open>One turn of the read loop\<close>

lemma loop_done_first:
  "Messages_loop unmarshal yield e (Some 0) buf ys lg =
   \<lparr>yielded = ys, logged = lg, exit = DoneClosed\<rparr>"
  by (subst Messages_loop.simps) simp

lemma loop_empty:
  "dn \<noteq> Some 0 \<Longrightarrow>
   Messages_loop unmarshal yield e dn (newline # rest) ys lg =
   Messages_loop unmarshal yield e (later dn) rest ys lg"
  using read_goroutine_line [of "[]" rest e]
  by (subst Messages_loop.simps) simp

lemma loop_malformed:
  "dn \<noteq> Some 0 \<Longrightarrow> newline \<notin> set l \<Longrightarrow> l \<noteq> [] \<Longrightarrow> unmarshal l = Inl er \<Longrightarrow>
   Messages_loop unmarshal yield e dn (l @ newline # rest) ys lg =
   Messages_loop unmarshal yield e (later dn) rest ys
     (lg @ [Log LevelError ''failed to unmarshal message'' (ErrAttr er)])"
  by (subst Messages_loop.simps) (simp add: read_goroutine_line)

lemma loop_message:
  "dn \<noteq> Some 0 \<Longrightarrow> newline \<notin> set l \<Longrightarrow> l \<noteq> [] \<Longrightarrow> unmarshal l = Inr m \<Longrightarrow>
   Messages_loop unmarshal yield e dn (l @ newline # rest) ys lg =
   (if yield ys m then Messages_loop unmarshal yield e (later dn) rest (ys @ [m]) lg
    else \<lparr>yielded = ys @ [m], logged = lg, exit = YieldFalse\<rparr>)"
  by (subst Messages_loop.simps) (simp add: read_goroutine_line)

lemma loop_read_fails:
  "dn \<noteq> Some 0 \<Longrightarrow> newline \<notin> set buf \<Longrightarrow>
   Messages_loop unmarshal yield (Fails er) dn buf ys lg =
   (if errors_Is er io_EOF then \<lparr>yielded = ys, logged = lg, exit = EndOfStream\<rparr>
    else \<lparr>yielded = ys,
          logged = lg @ [Log LevelError ''failed to read message'' (ErrAttr er)],
          exit = ReadFailed\<rparr>)"
  by (subst Messages_loop.simps) (simp add: read_goroutine_fails)

lemma loop_read_stalls:
  "dn \<noteq> Some 0 \<Longrightarrow> newline \<notin> set buf \<Longrightarrow>
   Messages_loop unmarshal yield Stalls dn buf ys lg =
   \<lparr>yielded = ys, logged = lg, exit = (if dn = None then Waiting else DoneClosed)\<rparr>"
  by (subst Messages_loop.simps) (simp add: read_goroutine_stalls)

lemma loop_no_line:
  "newline \<notin> set buf \<Longrightarrow> yielded (Messages_loop unmarshal yield e dn buf ys lg) = ys"
  by (cases "dn = Some 0"; cases e)
     (simp_all add: loop_done_first loop_read_fails loop_read_stalls)

subsection \<open>The lines of a stream\<close>

lemma complete_lines_line:
  "newline \<notin> set l \<Longrightarrow>
   complete_lines cur (l @ newline # rest) = (cur @ l) # complete_lines [] rest"
  by (induction l arbitrary: cur) auto

lemma complete_lines_no_line:
  "newline \<notin> set buf \<Longrightarrow> complete_lines cur buf = []"
  by (induction buf arbitrary: cur) auto

text \<open>
  \<open>complete_lines\<close> gives back the lines from which a stream was framed, and drops what
  follows the last newline.
\<close>

lemma complete_lines_framed:
  "\<forall>l \<in> set ls. newline \<notin> set l \<Longrightarrow> newline \<notin> set rest \<Longrightarrow>
   complete_lines [] (concat (map (\<lambda>l. l @ [newline]) ls) @ rest) = ls"
  by (induction ls) (simp_all add: complete_lines_no_line complete_lines_line)

lemma arrival_order_line:
  "newline \<notin> set l \<Longrightarrow>
   arrival_order unmarshal (l @ newline # rest) =
   decoded unmarshal l @ arrival_order unmarshal rest"
  by (simp add: arrival_order_def complete_lines_line)

lemma arrival_order_empty_line:
  "arrival_order unmarshal (newline # rest) = arrival_order unmarshal rest"
  using arrival_order_line [of "[]" unmarshal rest] by (simp add: decoded_def)

lemma arrival_order_no_line:
  "newline \<notin> set buf \<Longrightarrow> arrival_order unmarshal buf = []"
  by (simp add: arrival_order_def complete_lines_no_line)

subsection \<open>The loop yields the lines in order\<close>

text \<open>
  Whatever the consumer answers and whenever the done channel is closed, the loop adds to
  the messages yielded so far a prefix of the messages of the stream.
\<close>

lemma loop_yields_prefix:
  "\<exists>zs. ys @ zs = yielded (Messages_loop unmarshal yield e dn buf ys lg) \<and>
        prefix zs (arrival_order unmarshal buf)"
proof (induction "length buf" arbitrary: buf dn ys lg rule: less_induct)
  case less
  show ?case
  proof (cases "dn = Some 0")
    case True
    then show ?thesis by (simp add: loop_done_first)
  next
    case live: False
    show ?thesis
    proof (cases "newline \<in> set buf")
      case False
      then show ?thesis by (simp add: loop_no_line)
    next
      case True
      then obtain l rest where buf: "buf = l @ newline # rest" and l: "newline \<notin> set l"
        by (auto dest: split_list_first)
      have shorter: "length rest < length buf" by (simp add: buf)
      show ?thesis
      proof (cases "l = []")
        case True
        with less [OF shorter, of ys "later dn" lg] live l show ?thesis
          by (simp add: buf loop_empty arrival_order_empty_line)
      next
        case line: False
        show ?thesis
        proof (cases "unmarshal l")
          case (Inl er)
          with less [OF shorter, of ys "later dn"] live l line show ?thesis
            by (simp add: buf loop_malformed arrival_order_line decoded_def)
        next
          case (Inr m)
          show ?thesis
          proof (cases "yield ys m")
            case False
            with Inr live l line show ?thesis
              by (simp add: buf loop_message arrival_order_line decoded_def)
          next
            case True
            from less [OF shorter, of "ys @ [m]" "later dn" lg]
            obtain zs where
              "(ys @ [m]) @ zs =
                 yielded (Messages_loop unmarshal yield e (later dn) rest (ys @ [m]) lg)"
              "prefix zs (arrival_order unmarshal rest)"
              by blast
            with True Inr live l line show ?thesis
              by (intro exI [of _ "m # zs"])
                 (simp add: buf loop_message arrival_order_line decoded_def)
          qed
        qed
      qed
    qed
  qed
qed

lemma loop_extends:
  "prefix ys (yielded (Messages_loop unmarshal yield e dn buf ys lg))"
  using loop_yields_prefix [of ys unmarshal yield e dn buf lg]
  by (metis prefixI)

text \<open>
  With a consumer that never stops and a done channel that is never closed, the loop adds
  all of them.
\<close>

lemma loop_yields_all:
  "yielded (Messages_loop unmarshal (\<lambda>ys m. True) e None buf ys lg) =
   ys @ arrival_order unmarshal buf"
proof (induction "length buf" arbitrary: buf ys lg rule: less_induct)
  case less
  show ?case
  proof (cases "newline \<in> set buf")
    case False
    then show ?thesis by (simp add: loop_no_line arrival_order_no_line)
  next
    case True
    then obtain l rest where buf: "buf = l @ newline # rest" and l: "newline \<notin> set l"
      by (auto dest: split_list_first)
    have shorter: "length rest < length buf" by (simp add: buf)
    show ?thesis
    proof (cases "l = []")
      case True
      with less [OF shorter, of ys lg] l show ?thesis
        by (simp add: buf loop_empty arrival_order_empty_line)
    next
      case line: False
      show ?thesis
      proof (cases "unmarshal l")
        case (Inl er)
        with less [OF shorter, of ys] l line show ?thesis
          by (simp add: buf loop_malformed arrival_order_line decoded_def)
      next
        case (Inr m)
        with less [OF shorter, of "ys @ [m]" lg] l line show ?thesis
          by (simp add: buf loop_message arrival_order_line decoded_def)
      qed
    qed
  qed
qed

subsection \<open>The example codec\<close>

lemma demo_marshal_ping: "demo_marshal ''ping'' = Inr demo_ping"
  by (simp add: demo_marshal_def demo_ping_def demo_pre_def demo_post_def method_char_def)

lemma demo_unmarshal_ping: "demo_unmarshal demo_ping = Inr ''ping''"
  by (simp add: demo_unmarshal_def demo_ping_def demo_pre_def demo_post_def method_char_def)


lemma demo_ping_line: "newline \<notin> set demo_ping \<and> demo_ping \<noteq> []"
  by (simp add: demo_ping_def newline_def)

lemma demo_bad_line: "newline \<notin> set demo_bad \<and> demo_bad \<noteq> []"
  by (simp add: demo_bad_def newline_def)

lemma demo_stream_order: "arrival_order demo_unmarshal demo_stream = [''a'', ''b'']"
  by (simp add: demo_stream_def arrival_order_def decoded_def demo_unmarshal_def demo_pre_def
        demo_post_def method_char_def newline_def)

subsection \<open>The codec: numbers\<close>

lemma digit_char_is_digit: "d < 10 \<Longrightarrow> is_digit (digit_char d)"
  by (simp add: is_digit_def digit_char_def)

lemma digit_val_char: "d < 10 \<Longrightarrow> digit_val (digit_char d) = d"
  by (simp add: digit_val_def digit_char_def)

lemma show_nat_digits: "list_all is_digit (show_nat n)"
  by (induction n rule: show_nat.induct)
     (subst show_nat.simps, simp add: digit_char_is_digit)

lemma show_nat_nonempty: "show_nat n \<noteq> []"
  by (subst show_nat.simps) simp

lemma digits_value_snoc: "digits_value (ds @ [c]) = 10 * digits_value ds + digit_val c"
  by (simp add: digits_value_def)

lemma digits_value_show_nat: "digits_value (show_nat n) = n"
proof (induction n rule: show_nat.induct)
  case (1 n)
  show ?case
  proof (cases "n < 10")
    case True
    then show ?thesis
      by (subst show_nat.simps) (simp add: digits_value_def digit_val_char)
  next
    case False
    with 1 show ?thesis
      by (subst show_nat.simps) (simp add: digits_value_snoc digit_val_char)
  qed
qed

lemma hd_show_nat: "0 < n \<Longrightarrow> hd (show_nat n) \<noteq> CHR ''0''"
proof (induction n rule: show_nat.induct)
  case (1 n)
  show ?case
  proof (cases "n < 10")
    case True
    with 1(2) have "of_char (digit_char n) = 48 + n"
      by (simp add: digit_char_def)
    with 1(2) True show ?thesis
      by (subst show_nat.simps) auto
  next
    case False
    then have "0 < n div 10" by simp
    with 1(1) False have "hd (show_nat (n div 10)) \<noteq> CHR ''0''" by simp
    with False show ?thesis
      by (subst show_nat.simps) (simp add: show_nat_nonempty)
  qed
qed

lemma leading_zero: "1 < length (show_nat n) \<Longrightarrow> hd (show_nat n) \<noteq> CHR ''0''"
proof (cases "n < 10")
  case True
  assume "1 < length (show_nat n)"
  with True show ?thesis by (subst (asm) show_nat.simps) simp
next
  case False
  then show ?thesis by (simp add: hd_show_nat)
qed

lemma span_show_nat:
  assumes "rest = [] \<or> \<not> is_digit (hd rest)"
  shows "takeWhile is_digit (show_nat n @ rest) = show_nat n"
    and "dropWhile is_digit (show_nat n @ rest) = rest"
proof -
  have all: "\<forall>c \<in> set (show_nat n). is_digit c"
    using show_nat_digits [of n] by (simp add: list_all_iff)
  have stop: "takeWhile is_digit rest = []" "dropWhile is_digit rest = rest"
    using assms by (cases rest; auto)+
  show "takeWhile is_digit (show_nat n @ rest) = show_nat n"
    using all stop by (simp add: takeWhile_append2)
  show "dropWhile is_digit (show_nat n @ rest) = rest"
    using all stop by (simp add: dropWhile_append2)
qed

lemma show_nat_no_minus: "hd (show_nat n) \<noteq> CHR ''-''"
  using show_nat_digits [of n] show_nat_nonempty [of n]
  by (cases "show_nat n") (auto simp: is_digit_def)

lemma show_nat_no_plus: "hd (show_nat n) \<noteq> CHR ''+''"
  using show_nat_digits [of n] show_nat_nonempty [of n]
  by (cases "show_nat n") (auto simp: is_digit_def)

lemma number_ends_cases:
  "number_ends rest \<Longrightarrow>
   (rest = [] \<or> \<not> is_digit (hd rest)) \<and>
   (rest = [] \<or> (hd rest \<noteq> CHR ''.'' \<and> hd rest \<noteq> CHR ''e'' \<and> hd rest \<noteq> CHR ''E''))"
  by (cases rest) (auto simp: is_digit_def)

lemma strip_minus_show_int:
  "strip_minus (show_int i @ rest) = (i < 0, show_nat (nat \<bar>i\<bar>) @ rest)"
  using show_nat_no_minus [of "nat i"] show_nat_nonempty [of "nat i"]
  by (cases "show_nat (nat i)") (auto simp: strip_minus_def show_int_def)

lemma strip_sign_show_int:
  "strip_sign (show_int i @ rest) = (i < 0, show_nat (nat \<bar>i\<bar>) @ rest)"
  using show_nat_no_minus [of "nat i"] show_nat_no_plus [of "nat i"] show_nat_nonempty [of "nat i"]
  by (cases "show_nat (nat i)") (auto simp: strip_sign_def show_int_def)

lemma signed_abs: "signed (i < 0) (nat \<bar>i\<bar>) = i"
  by (simp add: signed_def)

lemma parse_frac_none:
  "rest = [] \<or> hd rest \<noteq> CHR ''.'' \<Longrightarrow> parse_frac rest = Some ([], rest)"
  by (cases rest) (auto simp: parse_frac_def)

lemma parse_exp_none:
  "rest = [] \<or> (hd rest \<noteq> CHR ''e'' \<and> hd rest \<noteq> CHR ''E'') \<Longrightarrow>
   parse_exp rest = Some (0, rest)"
  by (cases rest) (auto simp: parse_exp_def)

lemma parse_exp_show_int:
  "rest = [] \<or> \<not> is_digit (hd rest) \<Longrightarrow>
   parse_exp (CHR ''e'' # show_int e @ rest) = Some (e, rest)"
  by (simp add: parse_exp_def strip_sign_show_int span_show_nat show_nat_nonempty
        digits_value_show_nat signed_abs)

text \<open>Reading the text of a number gives the number back.\<close>

lemma parse_number_print:
  assumes "number_ends rest"
  shows "parse_number (print_number m e @ rest) = Some (JNumber m e, rest)"
proof -
  let ?ip = "show_nat (nat \<bar>m\<bar>)"
  have nodigit: "rest = [] \<or> \<not> is_digit (hd rest)"
    and nodot: "rest = [] \<or> hd rest \<noteq> CHR ''.''"
    and noexp: "rest = [] \<or> (hd rest \<noteq> CHR ''e'' \<and> hd rest \<noteq> CHR ''E'')"
    using number_ends_cases [OF assms] by auto
  have ip: "\<not> (?ip = [] \<or> (1 < length ?ip \<and> hd ?ip = CHR ''0''))"
    using leading_zero [of "nat \<bar>m\<bar>"] by (auto simp: show_nat_nonempty)
  show ?thesis
  proof (cases "e = 0")
    case True
    have "parse_number (show_int m @ rest) = Some (JNumber m 0, rest)"
      using ip
      by (simp add: parse_number_def strip_minus_show_int span_show_nat [OF nodigit]
            parse_frac_none [OF nodot] parse_exp_none [OF noexp] digits_value_show_nat
            signed_abs Let_def)
    with True show ?thesis
      by (simp add: print_number_def)
  next
    case False
    let ?tail = "CHR ''e'' # show_int e @ rest"
    have e_next: "?tail = [] \<or> \<not> is_digit (hd ?tail)"
      and e_nodot: "?tail = [] \<or> hd ?tail \<noteq> CHR ''.''"
      by (simp_all add: is_digit_def)
    have "parse_number (show_int m @ ?tail) = Some (JNumber m e, rest)"
      using ip
      by (simp add: parse_number_def strip_minus_show_int span_show_nat [OF e_next]
            parse_frac_none [OF e_nodot] parse_exp_show_int [OF nodigit] digits_value_show_nat
            signed_abs Let_def)
    with False show ?thesis
      by (simp add: print_number_def)
  qed
qed

lemma print_number_head:
  "\<exists>c cs. print_number m e = c # cs \<and> (c = CHR ''-'' \<or> is_digit c)"
proof (cases "m < 0")
  case True
  then show ?thesis by (simp add: print_number_def show_int_def)
next
  case False
  obtain c cs where s: "show_nat (nat m) = c # cs"
    using show_nat_nonempty [of "nat m"] by (cases "show_nat (nat m)") auto
  then have "is_digit c"
    using show_nat_digits [of "nat m"] by simp
  with False s show ?thesis by (simp add: print_number_def show_int_def)
qed

lemma print_number_nonempty: "print_number m e \<noteq> []"
  using print_number_head [of m e] by auto

subsection \<open>The codec: strings\<close>

lemma hex_val_hex_char: "d < 16 \<Longrightarrow> hex_val (hex_char d) = Some d"
  by (auto simp: hex_val_def hex_char_def Let_def)

lemma hex4_control:
  "n < 32 \<Longrightarrow> hex4 (CHR ''0'') (CHR ''0'') (hex_char (n div 16)) (hex_char (n mod 16)) = Some n"
proof -
  assume "n < 32"
  then have "n div 16 < 16" and "n mod 16 < 16" by simp_all
  then have "hex_val (hex_char (n div 16)) = Some (n div 16)"
    and "hex_val (hex_char (n mod 16)) = Some (n mod 16)"
    by (simp_all add: hex_val_hex_char)
  moreover have "hex_val (CHR ''0'') = Some 0"
    by (simp add: hex_val_def)
  ultimately show ?thesis
    by (simp add: hex4_def)
qed

lemma utf8_control: "(of_char c :: nat) < 32 \<Longrightarrow> utf8 (of_char c) = [c]"
  by (simp add: utf8_def)

lemma parse_chars_escape:
  "parse_chars (escape_char c @ cs) = prepend [c] (parse_chars cs)"
proof (cases "c = CHR 0x22 \<or> c = CHR 0x5C")
  case True
  then show ?thesis
    by (auto simp: escape_char_def simple_escape_def)
next
  case plain: False
  show ?thesis
  proof (cases "(of_char c :: nat) < 32")
    case True
    with plain show ?thesis
      by (simp add: escape_char_def hex4_control utf8_control)
  next
    case False
    with plain show ?thesis
      by (simp add: escape_char_def)
  qed
qed

text \<open>Reading the text of a string gives the string back.\<close>

lemma parse_chars_print:
  "parse_chars (concat (map escape_char s) @ CHR 0x22 # rest) = Some (s, rest)"
  by (induction s) (simp_all add: parse_chars_escape prepend_def)

subsection \<open>The codec: no raw newline\<close>

lemma of_char_newline: "(of_char newline :: nat) = 10"
  by (simp add: newline_def)

lemma hex_char_not_newline: "d < 16 \<Longrightarrow> hex_char d \<noteq> newline"
proof
  assume "d < 16" and "hex_char d = newline"
  then have "(of_char (hex_char d) :: nat) = 10"
    by (simp add: of_char_newline)
  with \<open>d < 16\<close> show False
    by (simp add: hex_char_def split: if_splits)
qed

lemma newline_escape: "newline \<notin> set (escape_char c)"
proof (cases "(of_char c :: nat) < 32")
  case True
  then have "(of_char c :: nat) div 16 < 16" and "(of_char c :: nat) mod 16 < 16"
    by simp_all
  then have "hex_char (of_char c div 16) \<noteq> newline" and "hex_char (of_char c mod 16) \<noteq> newline"
    by (simp_all add: hex_char_not_newline)
  then show ?thesis
    by (auto simp: escape_char_def) (simp_all add: newline_def)
next
  case False
  then have "c \<noteq> newline"
    by (auto simp: of_char_newline)
  with False show ?thesis
    by (auto simp: escape_char_def) (simp_all add: newline_def)
qed

lemma newline_print_string: "newline \<notin> set (print_string s)"
  using newline_escape by (auto simp: print_string_def) (simp add: newline_def)

lemma is_digit_not_newline: "is_digit c \<Longrightarrow> c \<noteq> newline"
  by (auto simp: is_digit_def of_char_newline)

lemma newline_show_nat: "newline \<notin> set (show_nat n)"
  using show_nat_digits [of n] is_digit_not_newline
  by (auto simp: list_all_iff)

lemma newline_print_number: "newline \<notin> set (print_number m e)"
  using newline_show_nat
  by (auto simp: print_number_def show_int_def) (simp_all add: newline_def)

lemma newline_commas:
  "\<forall>x \<in> set xs. newline \<notin> set x \<Longrightarrow> newline \<notin> set (commas xs)"
  by (induction xs rule: commas.induct) (auto simp: newline_def)

lemma print_member_eq: "(\<lambda>(k, v). print_string k @ CHR '':'' # print_json v) = print_member"
  by (auto simp: print_member_def)

text \<open>A compact document has no raw newline.\<close>

lemma newline_print_json: "newline \<notin> set (print_json v)"
proof (induction v)
  case (JArray vs)
  then have "newline \<notin> set (commas (map print_json vs))"
    by (intro newline_commas) auto
  then show ?case by (simp add: newline_def)
next
  case (JObject kvs)
  have "newline \<notin> set (commas (map print_member kvs))"
  proof (rule newline_commas, rule ballI)
    fix x assume "x \<in> set (map print_member kvs)"
    then obtain k v where kv: "(k, v) \<in> set kvs" and x: "x = print_member (k, v)"
      by auto
    from kv have "newline \<notin> set (print_json v)"
      by (intro JObject.IH [of "(k, v)" v]) simp_all
    with x show "newline \<notin> set x"
      using newline_print_string [of k] by (simp add: print_member_def) (simp add: newline_def)
  qed
  then show ?case by (simp add: print_member_eq) (simp add: newline_def)
qed (simp_all add: newline_print_number newline_print_string, simp_all add: newline_def)

subsection \<open>The codec: values\<close>

lemma skip_ws_keep: "\<not> is_ws c \<Longrightarrow> skip_ws (c # cs) = c # cs"
  by (simp add: skip_ws_def)

lemma parse_value_number:
  assumes "number_ends rest"
  shows "parse_value (Suc n) (print_number m e @ rest) = Some (JNumber m e, rest)"
proof -
  obtain c cs where s: "print_number m e = c # cs" and c: "c = CHR ''-'' \<or> is_digit c"
    using print_number_head by blast
  from c have plain: "\<not> is_ws c" "c \<noteq> CHR ''{''" "c \<noteq> CHR ''[''" "c \<noteq> CHR 0x22"
    "c \<noteq> CHR ''n''" "c \<noteq> CHR ''t''" "c \<noteq> CHR ''f''"
    by (auto simp: is_ws_def is_digit_def)
  have "parse_value (Suc n) (c # cs @ rest) = parse_number (c # cs @ rest)"
    using plain by (simp add: skip_ws_keep)
  also have "\<dots> = Some (JNumber m e, rest)"
    using parse_number_print [OF assms, of m e] s by simp
  finally show ?thesis by (simp add: s)
qed

lemma print_json_nonempty: "print_json v \<noteq> []"
  by (cases v) (simp_all add: print_string_def print_number_nonempty)

lemma print_json_head:
  "\<exists>c cs. print_json v = c # cs \<and> \<not> is_ws c \<and> c \<noteq> CHR '']''"
proof (cases v)
  case (JNumber m e)
  obtain c cs where "print_number m e = c # cs" and "c = CHR ''-'' \<or> is_digit c"
    using print_number_head by blast
  with JNumber show ?thesis
    by (auto simp: is_ws_def is_digit_def)
qed (auto simp: is_ws_def print_string_def)

lemma commas_head: "x = c # cs \<Longrightarrow> \<exists>cs'. commas (x # xs) = c # cs'"
  by (cases xs) simp_all

lemma print_member_length: "length (print_json (snd kv)) < length (print_member kv)"
  by (simp add: print_member_def)

text \<open>
  The elements of an array and the members of an object are read back, given that each of
  their values is; the bound on the depth is the length of the text.
\<close>

lemma parse_elems_print:
  assumes IH: "\<And>v n rest. v \<in> set vs \<Longrightarrow> number_ends rest \<Longrightarrow> length (print_json v) \<le> n \<Longrightarrow>
                 parse_value n (print_json v @ rest) = Some (v, rest)"
    and "vs \<noteq> []" and "length (commas (map print_json vs)) < n"
  shows "parse_elems n (commas (map print_json vs) @ CHR '']'' # rest) = Some (vs, rest)"
  using assms
proof (induction vs arbitrary: n)
  case Nil
  then show ?case by simp
next
  case (Cons v vs)
  from Cons.prems(3) obtain k where n: "n = Suc k" by (cases n) auto
  show ?case
  proof (cases vs)
    case Nil
    have "parse_value k (print_json v @ CHR '']'' # rest) = Some (v, CHR '']'' # rest)"
      using Cons.prems(3) Nil n by (intro Cons.prems(1)) simp_all
    with Nil n show ?thesis
      by (simp add: skip_ws_keep is_ws_def)
  next
    case (Cons w ws)
    let ?tail = "commas (map print_json (w # ws)) @ CHR '']'' # rest"
    have len: "length (print_json v) \<le> k" "length (commas (map print_json (w # ws))) < k"
      using Cons.prems(3) Cons n print_json_nonempty [of v]
      by (cases "print_json v"; simp)+
    have "parse_value k (print_json v @ CHR '','' # ?tail) = Some (v, CHR '','' # ?tail)"
      using len by (intro Cons.prems(1)) simp_all
    moreover have "parse_elems k ?tail = Some (w # ws, rest)"
      using Cons.prems(1) len Cons by (intro Cons.IH [unfolded Cons]) simp_all
    ultimately show ?thesis
      using Cons n by (simp add: skip_ws_keep is_ws_def)
  qed
qed

lemma parse_members_print:
  assumes IH: "\<And>k v n rest. (k, v) \<in> set kvs \<Longrightarrow> number_ends rest \<Longrightarrow>
                 length (print_json v) \<le> n \<Longrightarrow>
                 parse_value n (print_json v @ rest) = Some (v, rest)"
    and "kvs \<noteq> []" and "length (commas (map print_member kvs)) < n"
  shows "parse_members n (commas (map print_member kvs) @ CHR ''}'' # rest) = Some (kvs, rest)"
  using assms
proof (induction kvs arbitrary: n)
  case Nil
  then show ?case by simp
next
  case (Cons kv kvs)
  obtain k v where kv: "kv = (k, v)" by (cases kv)
  from Cons.prems(3) obtain j where n: "n = Suc j" by (cases n) auto
  have start: "\<And>tail. parse_members (Suc j) (print_member kv @ tail) =
      (case parse_value j (print_json v @ tail) of
         None \<Rightarrow> None
       | Some (v', r2) \<Rightarrow>
           (case skip_ws r2 of
              [] \<Rightarrow> None
            | d # r3 \<Rightarrow>
                if d = CHR '',''
                then (case parse_members j r3 of
                        None \<Rightarrow> None
                      | Some (kvs', r4) \<Rightarrow> Some ((k, v') # kvs', r4))
                else if d = CHR ''}'' then Some ([(k, v')], r3)
                else None))"
    using parse_chars_print [of k]
    by (simp add: kv print_member_def print_string_def skip_ws_keep is_ws_def)
  show ?case
  proof (cases kvs)
    case Nil
    have "parse_value j (print_json v @ CHR ''}'' # rest) = Some (v, CHR ''}'' # rest)"
      using Cons.prems(3) Nil n print_member_length [of kv]
      by (intro Cons.prems(1) [of k]) (simp_all add: kv)
    with Nil n start [of "CHR ''}'' # rest"] show ?thesis
      by (simp add: skip_ws_keep is_ws_def kv)
  next
    case (Cons kw kws)
    let ?tail = "commas (map print_member (kw # kws)) @ CHR ''}'' # rest"
    have len: "length (print_json v) \<le> j" "length (commas (map print_member (kw # kws))) < j"
      using Cons.prems(3) Cons n print_member_length [of kv]
      by (simp_all add: kv)
    have "parse_value j (print_json v @ CHR '','' # ?tail) = Some (v, CHR '','' # ?tail)"
      using len by (intro Cons.prems(1) [of k]) (simp_all add: kv)
    moreover have "parse_members j ?tail = Some (kw # kws, rest)"
    proof (rule Cons.IH [unfolded Cons])
      fix k' v' n' rest'
      assume "(k', v') \<in> set (kw # kws)" and "number_ends rest'"
        and "length (print_json v') \<le> n'"
      then show "parse_value n' (print_json v' @ rest') = Some (v', rest')"
        using Cons by (intro Cons.prems(1) [of k']) simp_all
    qed (use len in simp_all)
    ultimately show ?thesis
      using Cons n start [of "CHR '','' # ?tail"] by (simp add: skip_ws_keep is_ws_def kv)
  qed
qed

text \<open>Reading the compact document of a value gives the value back.\<close>

lemma parse_value_print:
  "number_ends rest \<Longrightarrow> length (print_json v) \<le> n \<Longrightarrow>
   parse_value n (print_json v @ rest) = Some (v, rest)"
proof (induction v arbitrary: n rest)
  case JNull
  then obtain k where "n = Suc k" by (cases n) auto
  then show ?case
    by (simp add: skip_ws_keep is_ws_def literal_def)
next
  case (JBool b)
  then obtain k where "n = Suc k" by (cases n) (auto split: if_splits)
  then show ?case
    by (simp add: skip_ws_keep is_ws_def literal_def)
next
  case (JNumber m e)
  then obtain k where "n = Suc k"
    using print_number_nonempty [of m e] by (cases n) auto
  with JNumber show ?case
    by (simp add: parse_value_number del: parse_value.simps)
next
  case (JString s)
  then obtain k where "n = Suc k" by (cases n) (auto simp: print_string_def)
  then show ?case
    using parse_chars_print [of s rest]
    by (simp add: print_string_def skip_ws_keep is_ws_def)
next
  case (JArray vs)
  from JArray.prems(2) obtain k where n: "n = Suc k" by (cases n) auto
  show ?case
  proof (cases vs)
    case Nil
    with n show ?thesis
      by (simp add: skip_ws_keep is_ws_def)
  next
    case (Cons w ws)
    obtain c cs where "print_json w = c # cs" and c: "\<not> is_ws c" "c \<noteq> CHR '']''"
      using print_json_head by blast
    then obtain cs' where hd: "commas (map print_json vs) = c # cs'"
      using commas_head [of "print_json w" c cs "map print_json ws"] Cons by auto
    have "parse_elems k (commas (map print_json vs) @ CHR '']'' # rest) = Some (vs, rest)"
      using JArray.prems n Cons by (intro parse_elems_print JArray.IH) simp_all
    with n c show ?thesis
      by (simp add: hd skip_ws_keep is_ws_def)
  qed
next
  case (JObject kvs)
  from JObject.prems(2) obtain j where n: "n = Suc j" by (cases n) auto
  show ?case
  proof (cases kvs)
    case Nil
    with n show ?thesis
      by (simp add: skip_ws_keep is_ws_def)
  next
    case (Cons kw kws)
    obtain cs where "print_member kw = CHR 0x22 # cs"
      by (simp add: print_member_def print_string_def)
    then obtain cs' where hd: "commas (map print_member kvs) = CHR 0x22 # cs'"
      using commas_head [of "print_member kw" "CHR 0x22" cs "map print_member kws"] Cons by auto
    have "parse_members j (commas (map print_member kvs) @ CHR ''}'' # rest) = Some (kvs, rest)"
    proof (rule parse_members_print)
      fix k v n' rest'
      assume "(k, v) \<in> set kvs" and "number_ends rest'" and "length (print_json v) \<le> n'"
      then show "parse_value n' (print_json v @ rest') = Some (v, rest')"
        by (intro JObject.IH [of "(k, v)" v]) simp_all
    qed (use JObject.prems n Cons in \<open>simp_all add: print_member_eq\<close>)
    with n show ?thesis
      by (simp add: print_member_eq hd skip_ws_keep is_ws_def)
  qed
qed

lemma parse_json_print: "parse_json (print_json v) = Some v"
  using parse_value_print [of "[]" v "Suc (length (print_json v))"]
  by (simp add: parse_json_def skip_ws_def)

subsection \<open>The codec: messages\<close>

lemma message_of_object_inverse:
  "valid_message m \<Longrightarrow> message_object m = JObject kvs \<Longrightarrow> message_of_object kvs = Inr m"
proof -
  assume v: "valid_message m" and o: "message_object m = JObject kvs"
  obtain i f p r e where m: "m = \<lparr>msg_id = i, msg_method = f, msg_params = p,
      msg_result = r, msg_error = e\<rparr>"
    by (cases m) auto
  from o have kvs: "kvs = (''jsonrpc'', JString JSONRPCVersion) # opt_field ''id'' i @
      opt_field ''method'' (map_option JString f) @ opt_field ''params'' p @
      opt_field ''result'' r @ opt_field ''error'' e"
    by (simp add: message_object_def m)
  have "map_of kvs ''jsonrpc'' = Some (JString JSONRPCVersion)"
    and "map_of kvs ''id'' = i"
    and "method_field (map_of kvs ''method'') = Some f"
    and "map_of kvs ''params'' = p"
    and "map_of kvs ''result'' = r"
    and "map_of kvs ''error'' = e"
    unfolding kvs
    by (cases i; cases f; cases p; cases r; cases e; simp)+
  with v show ?thesis
    by (simp add: message_of_object_def m)
qed

text \<open>
  The round trip of the codec: the document of a message that serializes decodes to that
  message, is not empty and has no raw newline. What decodes is a valid message.
\<close>

lemma JSONRPC_round_trip:
  assumes "JSONRPC_marshal m = Inr bs"
  shows "JSONRPC_unmarshal bs = Inr m" and "newline \<notin> set bs" and "bs \<noteq> []"
proof -
  from assms have v: "valid_message m" and bs: "bs = print_json (message_object m)"
    by (auto simp: JSONRPC_marshal_def split: if_splits)
  obtain kvs where o: "message_object m = JObject kvs"
    by (simp add: message_object_def)
  have "parse_json bs = Some (JObject kvs)"
    using parse_json_print [of "message_object m"] by (simp only: bs o)
  then show "JSONRPC_unmarshal bs = Inr m"
    using message_of_object_inverse [OF v o]
    by (simp add: JSONRPC_unmarshal_def)
  show "newline \<notin> set bs"
    by (simp add: bs newline_print_json)
  show "bs \<noteq> []"
    by (simp add: bs print_json_nonempty)
qed

lemma unmarshal_valid: "JSONRPC_unmarshal s = Inr m \<Longrightarrow> valid_message m"
  by (auto simp: JSONRPC_unmarshal_def message_of_object_def Let_def
           split: option.splits json.splits if_splits)

lemma demo_request_marshal: "JSONRPC_marshal demo_request = Inr demo_request_line"
  by code_simp

subsection \<open>Framing\<close>

text \<open>
  For any codec: when the document of \<open>m\<close> is not empty, has no raw newline and decodes to
  \<open>m\<close>, \<^verbatim>\<open>Send\<close> passes it to the writer with one newline after it, and the read loop on
  these bytes yields \<open>m\<close>.
\<close>

lemma send_then_messages:
  assumes "marshal m = Inr bs" and "newline \<notin> set bs" and "bs \<noteq> []"
    and "unmarshal bs = Inr m" and "dn \<noteq> Some 0"
  shows "writes (stdIOSession_Send_r1 marshal s stopped ctx m) = [bs @ [newline]]"
    and "done_ch s = Open \<and> sc \<noteq> StopBeforeGuard \<Longrightarrow>
         writes (stdIOSession_Send_r2 marshal s sc m) = [bs @ [newline]]"
    and "content (reader s') = bs @ [newline] \<Longrightarrow>
         yielded (Messages unmarshal yield dn s') = [m]"
proof -
  show "writes (stdIOSession_Send_r1 marshal s stopped ctx m) = [bs @ [newline]]"
    using assms(1) by (simp add: stdIOSession_Send_r1_def Let_def)
next
  assume "done_ch s = Open \<and> sc \<noteq> StopBeforeGuard"
  then show "writes (stdIOSession_Send_r2 marshal s sc m) = [bs @ [newline]]"
    using assms(1) by (simp add: stdIOSession_Send_r2_def Let_def)
next
  assume "content (reader s') = bs @ [newline]"
  then have "Messages unmarshal yield dn s' =
      (if yield [] m
       then Messages_loop unmarshal yield (ending (reader s')) (later dn) [] ([] @ [m]) []
       else \<lparr>yielded = [] @ [m], logged = [], exit = YieldFalse\<rparr>)"
    using assms(2-5) loop_message [of dn bs unmarshal m yield "ending (reader s')" "[]" "[]" "[]"]
    by (simp add: Messages_def)
  then show "yielded (Messages unmarshal yield dn s') = [m]"
    by (simp add: loop_no_line)
qed

text \<open>
  C1. Framing round trip, with the codec modelled from the spec. For every message \<open>m\<close>
  that serializes without error, to the document \<open>bs\<close>: \<^verbatim>\<open>Send\<close> passes to the writer exactly
  \<open>bs\<close> followed by one newline (in the second revision, when the safeguard finds the
  session alive), and the read loop of \<^verbatim>\<open>Messages\<close> on a stream that holds the bytes
  \<^verbatim>\<open>Send\<close> wrote yields the one message \<open>m\<close>. (\<open>dn \<noteq> Some 0\<close>: the first \<^verbatim>\<open>select\<close> of the
  loop takes the line, not the done channel.)
\<close>

theorem framing_round_trip:
  assumes "JSONRPC_marshal m = Inr bs" and "dn \<noteq> Some 0"
  shows "writes (stdIOSession_Send_r1 JSONRPC_marshal s stopped ctx m) = [bs @ [newline]] \<and>
         (done_ch s = Open \<and> sc \<noteq> StopBeforeGuard \<longrightarrow>
            writes (stdIOSession_Send_r2 JSONRPC_marshal s sc m) = [bs @ [newline]]) \<and>
         (content (reader s') =
            concat (writes (stdIOSession_Send_r1 JSONRPC_marshal s stopped ctx m)) \<longrightarrow>
            yielded (Messages JSONRPC_unmarshal yield dn s') = [m])"
proof -
  note codec = JSONRPC_round_trip [OF assms(1)]
  note framed = send_then_messages [where marshal = JSONRPC_marshal
      and unmarshal = JSONRPC_unmarshal and m = m and bs = bs and dn = dn,
      OF assms(1) codec(2) codec(3) codec(1) assms(2)]
  have w: "writes (stdIOSession_Send_r1 JSONRPC_marshal s stopped ctx m) = [bs @ [newline]]"
    by (rule framed(1))
  show ?thesis
    using framed(2) [of s sc] framed(3) [of s' yield]
    by (simp add: w)
qed

theorem framing_round_trip_witness:
  "JSONRPC_marshal demo_request = Inr demo_request_line \<and> (None :: nat option) \<noteq> Some 0 \<and>
   writes (stdIOSession_Send_r1 JSONRPC_marshal (sess demo_transport) False None demo_request) =
     [demo_request_line @ [newline]] \<and>
   writes (stdIOSession_Send_r2 JSONRPC_marshal (sess demo_transport) NoStop demo_request) =
     [demo_request_line @ [newline]] \<and>
   yielded (Messages JSONRPC_unmarshal (\<lambda>ys m. True) None
              (sess (NewStdIO \<lparr>content = demo_request_line @ [newline], ending = Fails io_EOF\<rparr>
                       Accepts))) = [demo_request]"
proof -
  let ?s = "sess demo_transport"
  let ?s' = "sess (NewStdIO \<lparr>content = demo_request_line @ [newline], ending = Fails io_EOF\<rparr>
                     Accepts)"
  have h: "(None :: nat option) \<noteq> Some 0"
    by simp
  note t = framing_round_trip [where m = demo_request and bs = demo_request_line and dn = None
      and stopped = False and ctx = None and sc = NoStop and yield = "\<lambda>ys m. True"
      and s = ?s and s' = ?s', OF demo_request_marshal h]
  from t have w: "writes (stdIOSession_Send_r1 JSONRPC_marshal ?s False None demo_request) =
      [demo_request_line @ [newline]]"
    by (rule conjunct1)
  have live: "done_ch ?s = Open \<and> NoStop \<noteq> StopBeforeGuard"
    by (simp add: demo_transport_def NewStdIO_def)
  have fed: "content (reader ?s') =
      concat (writes (stdIOSession_Send_r1 JSONRPC_marshal ?s False None demo_request))"
    by (simp add: w NewStdIO_def)
  from t live fed show ?thesis
    using demo_request_marshal h by blast
qed

subsection \<open>Malformed lines\<close>



subsection \<open>The end of the stream\<close>

text \<open>
  C5. Terminal read conditions. When no complete line is left and the reader fails, with
  \<^verbatim>\<open>io.EOF\<close> or with an I/O error, the loop returns: the messages yielded are those
  yielded before, and the run is not one that waits for ever. When the \<^verbatim>\<open>select\<close> takes
  the result of the read, the loop is left through the end-of-stream branch, or through the
  error branch with one record logged.
\<close>

theorem read_error_ends_sequence:
  assumes "newline \<notin> set buf"
  shows "yielded (Messages_loop unmarshal yield (Fails er) dn buf ys lg) = ys \<and>
         exit (Messages_loop unmarshal yield (Fails er) dn buf ys lg) \<noteq> Waiting \<and>
         (dn \<noteq> Some 0 \<longrightarrow>
            Messages_loop unmarshal yield (Fails er) dn buf ys lg =
            (if errors_Is er io_EOF then \<lparr>yielded = ys, logged = lg, exit = EndOfStream\<rparr>
             else \<lparr>yielded = ys,
                   logged = lg @ [Log LevelError ''failed to read message'' (ErrAttr er)],
                   exit = ReadFailed\<rparr>))"
  using assms
  by (cases "dn = Some 0") (simp_all add: loop_done_first loop_read_fails)

theorem read_error_ends_sequence_witness:
  "newline \<notin> set demo_bad \<and>
   Messages_loop demo_unmarshal (\<lambda>ys m. True) (Fails (Other ''file already closed'')) None
     demo_bad [''ping''] [] =
   \<lparr>yielded = [''ping''],
    logged = [Log LevelError ''failed to read message''
                (ErrAttr (Other ''file already closed''))],
    exit = ReadFailed\<rparr> \<and>
   Messages_loop demo_unmarshal (\<lambda>ys m. True) (Fails io_EOF) None demo_bad [''ping''] [] =
   \<lparr>yielded = [''ping''], logged = [], exit = EndOfStream\<rparr>"
proof -
  have h: "newline \<notin> set demo_bad"
    by (simp add: demo_bad_line)
  show ?thesis
    using h
      read_error_ends_sequence [OF h, of demo_unmarshal "\<lambda>ys m. True"
        "Other ''file already closed''" None "[''ping'']" "[]"]
      read_error_ends_sequence [OF h, of demo_unmarshal "\<lambda>ys m. True" io_EOF None
        "[''ping'']" "[]"]
    by simp
qed

subsection \<open>The order of the messages\<close>

text \<open>
  C8. Delivery in the order of arrival. What \<^verbatim>\<open>Messages\<close> yields is always a prefix of the
  messages of the lines of the stream that are not empty and decode, in the order of the
  lines; when the consumer never stops and the done channel is never closed it is the
  whole list. So no message is reordered, duplicated or dropped.
\<close>

theorem messages_in_arrival_order:
  "prefix (yielded (Messages unmarshal yield dn s))
     (arrival_order unmarshal (content (reader s))) \<and>
   yielded (Messages unmarshal (\<lambda>ys m. True) None s) =
     arrival_order unmarshal (content (reader s))"
proof
  obtain zs where
    "[] @ zs =
       yielded (Messages_loop unmarshal yield (ending (reader s)) dn (content (reader s)) [] [])"
    "prefix zs (arrival_order unmarshal (content (reader s)))"
    using loop_yields_prefix [of "[]" unmarshal yield "ending (reader s)" dn
        "content (reader s)" "[]"]
    by blast
  then show "prefix (yielded (Messages unmarshal yield dn s))
     (arrival_order unmarshal (content (reader s)))"
    by (simp add: Messages_def)
next
  show "yielded (Messages unmarshal (\<lambda>ys m. True) None s) =
     arrival_order unmarshal (content (reader s))"
    by (simp add: Messages_def loop_yields_all)
qed

theorem messages_in_arrival_order_witness:
  "yielded (Messages demo_unmarshal (\<lambda>ys m. True) None
      (sess (NewStdIO \<lparr>content = demo_stream, ending = Fails io_EOF\<rparr> Accepts))) =
   [''a'', ''b'']"
proof -
  let ?s = "sess (NewStdIO \<lparr>content = demo_stream, ending = Fails io_EOF\<rparr> Accepts)"
  have "yielded (Messages demo_unmarshal (\<lambda>ys m. True) None ?s) =
        arrival_order demo_unmarshal (content (reader ?s))"
    using messages_in_arrival_order [of demo_unmarshal "\<lambda>ys m. True" None ?s]
    by (rule conjunct2)
  then show ?thesis
    by (simp add: NewStdIO_def demo_stream_order)
qed

subsection \<open>Empty lines\<close>

text \<open>
  C10. Empty lines are skipped in silence. When the loop takes a line that is empty once
  its newline is removed, it goes on with the bytes after it, with the same messages and
  the same log. The sequence does not end there: when a well-formed line follows, the loop
  reads it and yields its message next, and on the stream that ends after that line the
  whole run has yielded that message and logged nothing. (\<open>dn \<noteq> Some 0\<close> and
  \<open>later dn \<noteq> Some 0\<close>: the two selects take the line, not the done channel.)
\<close>

theorem empty_line_skipped:
  assumes "dn \<noteq> Some 0" and "later dn \<noteq> Some 0"
    and "newline \<notin> set good" and "good \<noteq> []" and "unmarshal good = Inr m"
  shows "Messages_loop unmarshal yield e dn (newline # rest) ys lg =
         Messages_loop unmarshal yield e (later dn) rest ys lg \<and>
         Messages_loop unmarshal yield e dn (newline # good @ newline # rest) ys lg =
         (if yield ys m
          then Messages_loop unmarshal yield e (later (later dn)) rest (ys @ [m]) lg
          else \<lparr>yielded = ys @ [m], logged = lg, exit = YieldFalse\<rparr>) \<and>
         prefix (ys @ [m])
           (yielded (Messages_loop unmarshal yield e dn (newline # good @ newline # rest) ys lg)) \<and>
         Messages_loop unmarshal yield (Fails io_EOF) dn (newline # good @ [newline]) ys lg =
         \<lparr>yielded = ys @ [m], logged = lg,
          exit = (if yield ys m
                  then (if later (later dn) = Some 0 then DoneClosed else EndOfStream)
                  else YieldFalse)\<rparr>"
proof -
  have skip: "\<And>e rest. Messages_loop unmarshal yield e dn (newline # rest) ys lg =
      Messages_loop unmarshal yield e (later dn) rest ys lg"
    using assms(1) by (rule loop_empty)
  have next_line: "\<And>e rest.
      Messages_loop unmarshal yield e (later dn) (good @ newline # rest) ys lg =
      (if yield ys m
       then Messages_loop unmarshal yield e (later (later dn)) rest (ys @ [m]) lg
       else \<lparr>yielded = ys @ [m], logged = lg, exit = YieldFalse\<rparr>)"
    using assms(2-5) by (simp add: loop_message)
  have pre: "prefix (ys @ [m])
      (yielded (Messages_loop unmarshal yield e dn (newline # good @ newline # rest) ys lg))"
    using loop_extends [of "ys @ [m]" unmarshal yield e "later (later dn)" rest lg]
    by (simp add: skip next_line)
  have last: "Messages_loop unmarshal yield (Fails io_EOF) (later (later dn)) [] (ys @ [m]) lg =
      \<lparr>yielded = ys @ [m], logged = lg,
       exit = (if later (later dn) = Some 0 then DoneClosed else EndOfStream)\<rparr>"
    by (cases "later (later dn) = Some 0") (simp_all add: loop_done_first loop_read_fails)
  have whole: "Messages_loop unmarshal yield (Fails io_EOF) dn (newline # good @ [newline]) ys lg =
      \<lparr>yielded = ys @ [m], logged = lg,
       exit = (if yield ys m
               then (if later (later dn) = Some 0 then DoneClosed else EndOfStream)
               else YieldFalse)\<rparr>"
    using next_line [of "Fails io_EOF" "[]"] last
    by (simp add: skip)
  from skip [of e rest] next_line [of e rest] skip [of e "good @ newline # rest"] pre whole
  show ?thesis by simp
qed

theorem empty_line_skipped_witness:
  "(None :: nat option) \<noteq> Some 0 \<and> later None \<noteq> Some 0 \<and>
   newline \<notin> set demo_ping \<and> demo_ping \<noteq> [] \<and> demo_unmarshal demo_ping = Inr ''ping'' \<and>
   Messages_loop demo_unmarshal (\<lambda>ys m. True) (Fails io_EOF) None
     (newline # demo_ping @ [newline]) [] [] =
   \<lparr>yielded = [''ping''], logged = [], exit = EndOfStream\<rparr>"
proof -
  have h1: "(None :: nat option) \<noteq> Some 0" and h2: "later None \<noteq> Some 0"
    by simp_all
  have h3: "newline \<notin> set demo_ping" and h4: "demo_ping \<noteq> []"
    by (simp_all add: demo_ping_line)
  note t = empty_line_skipped [where unmarshal = demo_unmarshal and good = demo_ping
      and m = "''ping''" and dn = None and yield = "\<lambda>ys m. True" and ys = "[]"
      and lg = "[]" and e = "Fails io_EOF" and rest = "[]",
      OF h1 h2 h3 h4 demo_unmarshal_ping]
  have "Messages_loop demo_unmarshal (\<lambda>ys m. True) (Fails io_EOF) None
      (newline # demo_ping @ [newline]) [] [] =
    \<lparr>yielded = [''ping''], logged = [], exit = EndOfStream\<rparr>"
    using t [THEN conjunct2, THEN conjunct2, THEN conjunct2] by simp
  with h3 h4 show ?thesis
    by (simp add: demo_unmarshal_ping)
qed

subsection \<open>The session identifier\<close>

text \<open>
  C9. The session of a transport made by \<^verbatim>\<open>NewStdIO\<close> has the identifier \<^verbatim>\<open>"1"\<close>.
  \<^verbatim>\<open>StopSession\<close> on such a transport returns, and it has closed the done channel exactly
  when the identifier passed is \<^verbatim>\<open>"1"\<close>; with any other identifier it returns the
  transport as it was, whatever its state.
\<close>

theorem session_identifier_constant:
  "ID (sess (NewStdIO r w)) = ''1'' \<and>
   (\<exists>t'. StopSession (NewStdIO r w) sessID = Returns t' \<and>
         (done_ch (sess t') = Closed) = (sessID = ''1'')) \<and>
   (sessID \<noteq> ''1'' \<longrightarrow> StopSession t sessID = Returns t)"
  by (simp add: ID_def StopSession_def stop_r1_def NewStdIO_def)

theorem session_identifier_constant_witness:
  "StopSession demo_transport ''1'' =
     Returns \<lparr>sess = \<lparr>reader = demo_reader, writer = Accepts, done_ch = Closed,
                      closed_ch = Open\<rparr>,
              closed_t = Open\<rparr> \<and>
   ''2'' \<noteq> ''1'' \<and> StopSession demo_transport ''2'' = Returns demo_transport"
  using session_identifier_constant [of demo_reader Accepts "''1''"]
    session_identifier_constant [of demo_reader Accepts "''2''" demo_transport]
  by (auto simp: StopSession_def stop_r1_def NewStdIO_def demo_transport_def)

subsection \<open>Stopping twice\<close>

text \<open>
  C2. The first call of \<^verbatim>\<open>stop\<close> on a new session closes the done channel. A second call
  closes it again, and Go panics with \<^verbatim>\<open>close of closed channel\<close>: in the first revision
  (\<^verbatim>\<open>stop\<close>, also through \<^verbatim>\<open>StopSession\<close>) and in the second one (\<^verbatim>\<open>Stop\<close>, whether or not
  the read loop has closed the channel \<^verbatim>\<open>closed\<close> in between).
\<close>

theorem double_stop_panics:
  "(\<exists>s1. stop_r1 (sess (NewStdIO r w)) = Returns s1 \<and>
         stop_r1 s1 = Panics ''close of closed channel'') \<and>
   (\<exists>s1. Stop_r2 (sess (NewStdIO r w)) = Blocked s1 \<and>
         Stop_r2 s1 = Panics ''close of closed channel'' \<and>
         Stop_r2 (s1\<lparr>closed_ch := Closed\<rparr>) = Panics ''close of closed channel'') \<and>
   (\<exists>t1. StopSession (NewStdIO r w) ''1'' = Returns t1 \<and>
         StopSession t1 ''1'' = Panics ''close of closed channel'')"
  by (simp add: stop_r1_def Stop_r2_def StopSession_def NewStdIO_def)

subsection \<open>Send and the context\<close>

text \<open>
  C6. \<^verbatim>\<open>StdIO.Send\<close> of the second revision never looks at its context: with a writer
  that stalls and a session that nobody stops, no case of its \<^verbatim>\<open>select\<close> can proceed, so
  the call does not return, cancelled context or not. The first revision returns the error
  of the context there.
\<close>

theorem send_r2_ignores_cancellation:
  "marshal msg = Inr bs \<Longrightarrow>
   outcomes (StdIO_Send_r2 marshal (NewStdIO r Stalled) NoStop (Some er) msg) = [] \<and>
   StdIO_Send_r2 marshal t stopped (Some er) msg = StdIO_Send_r2 marshal t stopped None msg \<and>
   outcomes (StdIO_Send_r1 marshal (NewStdIO r Stalled) False (Some er) msg) = [(Some er, [])]"
  by (simp add: StdIO_Send_r2_def stdIOSession_Send_r2_def StdIO_Send_r1_def
        stdIOSession_Send_r1_def NewStdIO_def Let_def)

theorem send_r2_ignores_cancellation_witness:
  "demo_marshal ''ping'' = Inr demo_ping \<and>
   outcomes (StdIO_Send_r2 demo_marshal (NewStdIO demo_reader Stalled) NoStop
               (Some ctx_Canceled) ''ping'') = [] \<and>
   outcomes (StdIO_Send_r1 demo_marshal (NewStdIO demo_reader Stalled) False
               (Some ctx_Canceled) ''ping'') = [(Some ctx_Canceled, [])]"
  using send_r2_ignores_cancellation [where marshal = demo_marshal and msg = "''ping''"
      and bs = demo_ping and r = demo_reader and er = ctx_Canceled] demo_marshal_ping
  by blast

subsection \<open>Send on a stopped session\<close>

text \<open>
  C3, as the code has it. A message that does not serialize makes \<^verbatim>\<open>Send\<close> return the error
  of \<^verbatim>\<open>json.Marshal\<close>, stopped session or not. For a message that serializes to \<open>bs\<close>:
  \<^item> in the second revision, when the done channel is closed before the goroutine looks at
    it, nothing is written, the goroutine and the caller log one warning each, and
    \<^verbatim>\<open>Send\<close> returns \<^verbatim>\<open>nil\<close>;
  \<^item> in both revisions, when the session is stopped while the write has not returned (and,
    in the first revision, the context is not cancelled), \<^verbatim>\<open>Send\<close> returns \<^verbatim>\<open>nil\<close>;
  \<^item> the first revision passes the bytes to the writer in every case, stopped session or
    not, and logs nothing.
\<close>

theorem send_when_stopped:
  "(marshal msg = Inl er \<longrightarrow>
      outcomes (stdIOSession_Send_r1 marshal s st1 ctx msg) =
        [(Some (Errorf ''failed to marshal message: '' er), [])] \<and>
      outcomes (stdIOSession_Send_r2 marshal s st2 msg) =
        [(Some (Errorf ''failed to marshal message: '' er), [])]) \<and>
   (marshal msg = Inr bs \<longrightarrow>
      (done_ch s = Closed \<or> st2 = StopBeforeGuard \<longrightarrow>
         stdIOSession_Send_r2 marshal s st2 msg =
           \<lparr>writes = [],
            bg_logged = [Log LevelWarn ''session is closed while writing message''
                           (StringAttr ''message'' (bs @ [newline]))],
            outcomes = [(None, [Log LevelWarn ''session is closed while sending message''
                                  (StringAttr ''message'' (bs @ [newline]))])]\<rparr>) \<and>
      (writer s = Stalled \<and> st2 = StopAfterGuard \<longrightarrow>
         outcomes (stdIOSession_Send_r2 marshal s st2 msg) =
           [(None, [Log LevelWarn ''session is closed while sending message''
                      (StringAttr ''message'' (bs @ [newline]))])]) \<and>
      (writer s = Stalled \<and> (done_ch s = Closed \<or> st1) \<longrightarrow>
         outcomes (stdIOSession_Send_r1 marshal s st1 None msg) = [(None, [])]) \<and>
      writes (stdIOSession_Send_r1 marshal s st1 ctx msg) = [bs @ [newline]] \<and>
      bg_logged (stdIOSession_Send_r1 marshal s st1 ctx msg) = [])"
  by (auto simp: stdIOSession_Send_r1_def stdIOSession_Send_r2_def Let_def)

theorem send_when_stopped_witness:
  "demo_marshal ''ping'' = Inr demo_ping \<and>
   done_ch (demo_stopped (Rejects (Other ''broken pipe''))) = Closed \<and>
   stdIOSession_Send_r2 demo_marshal (demo_stopped (Rejects (Other ''broken pipe''))) NoStop
     ''ping'' =
     \<lparr>writes = [],
      bg_logged = [Log LevelWarn ''session is closed while writing message''
                     (StringAttr ''message'' (demo_ping @ [newline]))],
      outcomes = [(None, [Log LevelWarn ''session is closed while sending message''
                            (StringAttr ''message'' (demo_ping @ [newline]))])]\<rparr> \<and>
   writer (demo_stopped Stalled) = Stalled \<and>
   outcomes (stdIOSession_Send_r1 demo_marshal (demo_stopped Stalled) False None ''ping'') =
     [(None, [])]"
proof -
  have d: "done_ch (demo_stopped (Rejects (Other ''broken pipe''))) = Closed"
    and d': "done_ch (demo_stopped Stalled) = Closed"
    and w: "writer (demo_stopped Stalled) = Stalled"
    by (simp_all add: demo_stopped_def)
  show ?thesis
    using d d' w demo_marshal_ping
      send_when_stopped [where marshal = demo_marshal and msg = "''ping''" and bs = demo_ping
        and s = "demo_stopped (Rejects (Other ''broken pipe''))" and ?st2.0 = NoStop]
      send_when_stopped [where marshal = demo_marshal and msg = "''ping''" and bs = demo_ping
        and s = "demo_stopped Stalled" and ?st1.0 = False]
    by blast
qed

text \<open>
  C3 as stated fails. A session is stopped; then, in the first revision, \<^verbatim>\<open>Send\<close> of a
  message that serializes still passes the bytes to the writer and logs nothing, and with
  a writer that rejects them the \<^verbatim>\<open>select\<close> may return the write error; in the second
  revision, \<^verbatim>\<open>Send\<close> of a message that does not serialize returns the marshal error.
\<close>

theorem send_after_stop_counterexample:
  "stop_r1 (sess (NewStdIO demo_reader (Rejects (Other ''broken pipe'')))) =
     Returns (demo_stopped (Rejects (Other ''broken pipe''))) \<and>
   writes (stdIOSession_Send_r1 demo_marshal (demo_stopped (Rejects (Other ''broken pipe'')))
             False None ''ping'') = [demo_ping @ [newline]] \<and>
   bg_logged (stdIOSession_Send_r1 demo_marshal (demo_stopped (Rejects (Other ''broken pipe'')))
             False None ''ping'') = [] \<and>
   outcomes (stdIOSession_Send_r1 demo_marshal (demo_stopped (Rejects (Other ''broken pipe'')))
             False None ''ping'') =
     [(Some (Errorf ''failed to write message: '' (Other ''broken pipe'')), []), (None, [])] \<and>
   outcomes (stdIOSession_Send_r2 demo_marshal (demo_stopped Accepts) NoStop ''Ping'') =
     [(Some (Errorf ''failed to marshal message: '' (Other ''json: unsupported value'')), [])]"
  by (simp add: stdIOSession_Send_r1_def stdIOSession_Send_r2_def demo_marshal_ping Let_def
        demo_stopped_def stop_r1_def NewStdIO_def)
     (simp add: demo_marshal_def method_char_def)

subsection \<open>Sessions\<close>

lemma run_schedule_invariant:
  assumes step: "\<And>it. P it \<Longrightarrow> P (step it)"
    and stop: "\<And>it. P it \<Longrightarrow> P (stop_called_during stp it)"
  shows "P it \<Longrightarrow> P (run_schedule step stp evs it)"
proof (induction evs arbitrary: it)
  case Nil
  then show ?case by simp
next
  case (Cons ev evs)
  then show ?case
    by (cases ev) (simp_all add: step stop)
qed

lemma sessions_inv_step_r1: "sessions_inv_r1 it \<Longrightarrow> sessions_inv_r1 (Sessions_step_r1 it)"
  by (cases "at it") (auto simp: sessions_inv_r1_def Sessions_step_r1_def)

lemma sessions_inv_stop_r1:
  "sessions_inv_r1 it \<Longrightarrow> sessions_inv_r1 (stop_called_during stop_r1 it)"
  by (cases "at it"; cases "done_ch (sess (transport it))")
     (auto simp: sessions_inv_r1_def stop_called_during_def stop_r1_def)

lemma sessions_inv_step_r2: "sessions_inv_r2 it \<Longrightarrow> sessions_inv_r2 (Sessions_step_r2 it)"
  by (cases "at it"; cases "closed_t (transport it)")
     (auto simp: sessions_inv_r2_def Sessions_step_r2_def)

lemma sessions_inv_stop_r2:
  "sessions_inv_r2 it \<Longrightarrow> sessions_inv_r2 (stop_called_during Stop_r2 it)"
  by (cases "at it"; cases "done_ch (sess (transport it))")
     (auto simp: sessions_inv_r2_def stop_called_during_def Stop_r2_def)

lemma Sessions_r1_inv: "sessions_inv_r1 (Sessions_r1 evs t)"
  unfolding Sessions_r1_def
  by (rule run_schedule_invariant [where P = sessions_inv_r1])
     (erule sessions_inv_step_r1, erule sessions_inv_stop_r1, simp add: sessions_inv_r1_def)

lemma Sessions_r2_inv: "sessions_inv_r2 (Sessions_r2 evs t)"
  unfolding Sessions_r2_def
  by (rule run_schedule_invariant [where P = sessions_inv_r2])
     (erule sessions_inv_step_r2, erule sessions_inv_stop_r2, simp add: sessions_inv_r2_def)

text \<open>
  C7, as the code has it. Under every schedule, the iterator of either revision yields at
  most one session, and exactly one once it is past its yield. In the second revision the
  iteration has not completed unless the done channel is closed. In the first revision the
  iteration completes with its first step, and leaves the transport as it was.
\<close>

theorem sessions_wait_for_done:
  "length (seen (Sessions_r2 evs t)) \<le> 1 \<and>
   (at (Sessions_r2 evs t) = Receiving \<or> at (Sessions_r2 evs t) = Exited \<longrightarrow>
      length (seen (Sessions_r2 evs t)) = 1) \<and>
   (at (Sessions_r2 evs t) = Exited \<longrightarrow>
      done_ch (sess (transport (Sessions_r2 evs t))) = Closed) \<and>
   length (seen (Sessions_r1 evs t)) \<le> 1 \<and>
   (at (Sessions_r1 evs t) = Exited \<longrightarrow> length (seen (Sessions_r1 evs t)) = 1) \<and>
   Sessions_r1 [Iterate] t = \<lparr>at = Exited, seen = [sess t], transport = t\<rparr>"
proof -
  have r2: "sessions_inv_r2 (Sessions_r2 evs t)"
    by (rule Sessions_r2_inv)
  have r1: "sessions_inv_r1 (Sessions_r1 evs t)"
    by (rule Sessions_r1_inv)
  have "Sessions_r1 [Iterate] t = \<lparr>at = Exited, seen = [sess t], transport = t\<rparr>"
    by (simp add: Sessions_r1_def Sessions_step_r1_def)
  with r1 r2 show ?thesis
    by (cases "at (Sessions_r2 evs t)"; cases "at (Sessions_r1 evs t)")
       (simp_all add: sessions_inv_r2_def sessions_inv_r1_def)
qed

theorem sessions_wait_for_done_witness:
  "at (Sessions_r2 [Iterate, Iterate, Iterate] demo_transport) = Receiving \<and>
   at (Sessions_r2 [Iterate, Iterate, CallStop, Iterate] demo_transport) = Exited \<and>
   length (seen (Sessions_r2 [Iterate, Iterate, CallStop, Iterate] demo_transport)) = 1 \<and>
   done_ch (sess (transport (Sessions_r2 [Iterate, Iterate, CallStop, Iterate] demo_transport)))
     = Closed"
proof -
  have a: "at (Sessions_r2 [Iterate, Iterate, Iterate] demo_transport) = Receiving"
    by (simp add: Sessions_r2_def Sessions_step_r2_def demo_transport_def NewStdIO_def)
  have b: "at (Sessions_r2 [Iterate, Iterate, CallStop, Iterate] demo_transport) = Exited"
    by (simp add: Sessions_r2_def Sessions_step_r2_def demo_transport_def NewStdIO_def
          stop_called_during_def Stop_r2_def)
  show ?thesis
    using a b sessions_wait_for_done [of "[Iterate, Iterate, CallStop, Iterate]" demo_transport]
    by blast
qed

text \<open>
  C7 as stated fails on the first revision: the iteration over \<^verbatim>\<open>Sessions\<close> has completed
  while the done channel of the session is still open.
\<close>

theorem sessions_r1_counterexample:
  "at (Sessions_r1 [Iterate] demo_transport) = Exited \<and>
   done_ch (sess (transport (Sessions_r1 [Iterate] demo_transport))) = Open"
  by (simp add: Sessions_r1_def Sessions_step_r1_def demo_transport_def NewStdIO_def)

end
